theory Spec2Isabelle
  imports Main "HOL-Library.Word"
begin

unbundle bit_operations_syntax

section \<open>Machine integers of the target\<close>

text \<open>
  The firmware is compiled by SDCC for an 8051 core: \<open>uint8_t\<close> is 8 bits, \<open>int\<close>,
  \<open>unsigned int\<close>, \<open>uint16_t\<close> and \<open>size_t\<close> are 16 bits.  An \<open>int\<close> combined with
  a \<open>uint16_t\<close> is converted to unsigned, so such arithmetic wraps modulo \<open>2 ^ 16\<close>.
\<close>

type_synonym u8 = "8 word"
type_synonym u16 = "16 word"

section \<open>Interleaver: \<open>interleave.c\<close>\<close>

subsection \<open>The compiled-in stride table\<close>

definition steps :: "u16 list" where
  "steps = [0, 7, 9, 28, 13, 68, 17, 20, 57, 47, 21, 23, 104, 25, 25, 233, 31, 110, 32,
     60, 31, 107, 281, 66, 33, 159, 146, 228, 188, 111, 37, 354, 82, 118, 239, 41, 253,
     186, 191, 196, 143, 402, 95, 48, 45, 93, 47, 588, 400, 613, 49, 99, 49, 52, 168,
     255, 511, 157, 241, 294, 299, 168, 905, 55, 447, 179, 306, 221, 176, 399, 57, 293,
     255, 410, 430, 620, 172, 178, 436, 305, 61, 252, 1047, 435, 1040, 394]"

subsection \<open>The bit macros\<close>

text \<open>
  Both macros compute the same position expression \<open>((bit)*steps[n/3])%n\<close>, where \<open>n\<close>
  is the macro's first argument as passed, the payload length in bytes.  The product is
  an unsigned 16-bit product on the target.  (Every concrete input used below keeps the
  product under 100, so a wider \<open>int\<close>, as in the file's \<open>STANDALONE\<close> build, gives the
  same values there.)
\<close>

definition interleave_pos :: "u8 \<Rightarrow> u16 \<Rightarrow> u16" where
  "interleave_pos n bitno = (bitno * steps ! unat (n div 3)) mod ucast n"

text \<open>
  \<open>interleave_getbit(n,in,bit)\<close> is
  \<open>((in[pos>>3] >> (pos&7)) ? 1 : 0)\<close>.  A remainder by zero and an array access beyond
  the buffer have no defined result in C; the model returns \<open>None\<close> there.
\<close>

definition interleave_getbit :: "u8 \<Rightarrow> u8 list \<Rightarrow> u16 \<Rightarrow> u8 option" where
  "interleave_getbit n buf bitno =
     (if n = 0 then None
      else let pos = interleave_pos n bitno;
               byte = unat (drop_bit 3 pos);
               sh = unat (pos AND 7)
           in if byte < length buf
              then Some (if drop_bit sh (buf ! byte) \<noteq> 0 then 1 else 0)
              else None)"

text \<open>
  \<open>interleave_setbit(n,in,bit,value)\<close> is
  \<open>if ((value)==0) in[pos>>3] &= ~1<<(pos&7); else in[pos>>3] |= 1<<(pos&7);\<close>.
  Unary \<open>~\<close> binds tighter than \<open><<\<close>, so the mask of the first branch is
  \<open>(~1) << (pos&7)\<close>; the byte keeps the low eight bits of the result.
\<close>

definition interleave_setbit :: "u8 \<Rightarrow> u8 list \<Rightarrow> u16 \<Rightarrow> u8 \<Rightarrow> u8 list option" where
  "interleave_setbit n buf bitno v =
     (if n = 0 then None
      else let pos = interleave_pos n bitno;
               byte = unat (drop_bit 3 pos);
               sh = unat (pos AND 7)
           in if byte < length buf
              then Some (buf[byte := (if v = 0 then buf ! byte AND push_bit sh (NOT 1)
                                      else buf ! byte OR push_bit sh 1)])
              else None)"

subsection \<open>The byte functions\<close>

text \<open>
  Eight uses of the bit macro each, in the order of the source; an undefined bit access
  makes the whole call undefined.
\<close>

definition interleave_getbyte :: "u8 \<Rightarrow> u8 list \<Rightarrow> u8 \<Rightarrow> u8 option" where
  "interleave_getbyte n buf index =
     Option.bind (interleave_getbit n buf (ucast index * 8 + 0)) (\<lambda>b0.
     Option.bind (interleave_getbit n buf (ucast index * 8 + 1)) (\<lambda>b1.
     Option.bind (interleave_getbit n buf (ucast index * 8 + 2)) (\<lambda>b2.
     Option.bind (interleave_getbit n buf (ucast index * 8 + 3)) (\<lambda>b3.
     Option.bind (interleave_getbit n buf (ucast index * 8 + 4)) (\<lambda>b4.
     Option.bind (interleave_getbit n buf (ucast index * 8 + 5)) (\<lambda>b5.
     Option.bind (interleave_getbit n buf (ucast index * 8 + 6)) (\<lambda>b6.
     Option.bind (interleave_getbit n buf (ucast index * 8 + 7)) (\<lambda>b7.
       Some (0 OR b0 OR push_bit 1 b1 OR push_bit 2 b2 OR push_bit 3 b3
               OR push_bit 4 b4 OR push_bit 5 b5 OR push_bit 6 b6 OR push_bit 7 b7)))))))))"

definition interleave_setbyte :: "u8 \<Rightarrow> u8 list \<Rightarrow> u8 \<Rightarrow> u8 \<Rightarrow> u8 list option" where
  "interleave_setbyte n buf index v =
     Option.bind (interleave_setbit n buf (push_bit 3 (ucast index) + 0) (drop_bit 0 v AND 1)) (\<lambda>m0.
     Option.bind (interleave_setbit n m0 (push_bit 3 (ucast index) + 1) (drop_bit 1 v AND 1)) (\<lambda>m1.
     Option.bind (interleave_setbit n m1 (push_bit 3 (ucast index) + 2) (drop_bit 2 v AND 1)) (\<lambda>m2.
     Option.bind (interleave_setbit n m2 (push_bit 3 (ucast index) + 3) (drop_bit 3 v AND 1)) (\<lambda>m3.
     Option.bind (interleave_setbit n m3 (push_bit 3 (ucast index) + 4) (drop_bit 4 v AND 1)) (\<lambda>m4.
     Option.bind (interleave_setbit n m4 (push_bit 3 (ucast index) + 5) (drop_bit 5 v AND 1)) (\<lambda>m5.
     Option.bind (interleave_setbit n m5 (push_bit 3 (ucast index) + 6) (drop_bit 6 v AND 1)) (\<lambda>m6.
     interleave_setbit n m6 (push_bit 3 (ucast index) + 7) (drop_bit 7 v AND 1))))))))"

subsection \<open>The interleaver as the specification words it\<close>

text \<open>
  The specification's position: \<open>(bit_index * stride[n/3]) mod (8n)\<close>, over unbounded
  naturals, and its single-bit read and write on bit \<open>position mod 8\<close> of byte
  \<open>position / 8\<close>.
\<close>

definition spec_permuted_index :: "nat \<Rightarrow> nat \<Rightarrow> nat" where
  "spec_permuted_index n i = (i * unat (steps ! (n div 3))) mod (8 * n)"

definition spec_get_bit :: "nat \<Rightarrow> u8 list \<Rightarrow> nat \<Rightarrow> bool" where
  "spec_get_bit n buf i =
     bit (buf ! (spec_permuted_index n i div 8)) (spec_permuted_index n i mod 8)"

definition spec_set_bit :: "nat \<Rightarrow> u8 list \<Rightarrow> nat \<Rightarrow> bool \<Rightarrow> u8 list" where
  "spec_set_bit n buf i v =
     buf[spec_permuted_index n i div 8 :=
           (if v then set_bit (spec_permuted_index n i mod 8) (buf ! (spec_permuted_index n i div 8))
            else unset_bit (spec_permuted_index n i mod 8) (buf ! (spec_permuted_index n i div 8)))]"

section \<open>Serial transport: \<open>serial.c\<close>\<close>

subsection \<open>Buffer sizes and the FIFO status macros\<close>

definition RX_BUFF_MAX :: u16 where "RX_BUFF_MAX = 256"
definition TX_BUFF_MAX :: u16 where "TX_BUFF_MAX = 512"

definition SERIAL_CTS_THRESHOLD_LOW :: u16 where "SERIAL_CTS_THRESHOLD_LOW = 17"
definition SERIAL_CTS_THRESHOLD_HIGH :: u16 where "SERIAL_CTS_THRESHOLD_HIGH = 34"

text \<open>
  The macros paste the buffer's name into \<open>_insert\<close>, \<open>_remove\<close> and \<open>sizeof(_buf)\<close>;
  here they take these three values.  \<open>BUF_NEXT_INSERT\<close> and \<open>BUF_NEXT_REMOVE\<close> are the
  same expression on the respective index.
\<close>

definition BUF_NEXT :: "u16 \<Rightarrow> u16 \<Rightarrow> u16" where
  "BUF_NEXT sz idx = (if idx + 1 = sz then 0 else idx + 1)"

definition BUF_FULL :: "u16 \<Rightarrow> u16 \<Rightarrow> u16 \<Rightarrow> bool" where
  "BUF_FULL sz ins rem = (BUF_NEXT sz ins = rem)"

definition BUF_NOT_FULL :: "u16 \<Rightarrow> u16 \<Rightarrow> u16 \<Rightarrow> bool" where
  "BUF_NOT_FULL sz ins rem = (BUF_NEXT sz ins \<noteq> rem)"

definition BUF_EMPTY :: "u16 \<Rightarrow> u16 \<Rightarrow> bool" where
  "BUF_EMPTY ins rem = (ins = rem)"

definition BUF_NOT_EMPTY :: "u16 \<Rightarrow> u16 \<Rightarrow> bool" where
  "BUF_NOT_EMPTY ins rem = (ins \<noteq> rem)"

definition BUF_USED :: "u16 \<Rightarrow> u16 \<Rightarrow> u16 \<Rightarrow> u16" where
  "BUF_USED sz ins rem = (if ins \<ge> rem then ins - rem else (sz - rem) + ins)"

definition BUF_FREE :: "u16 \<Rightarrow> u16 \<Rightarrow> u16 \<Rightarrow> u16" where
  "BUF_FREE sz ins rem = (if ins \<ge> rem then sz + rem - ins else rem - ins)"

subsection \<open>Arrays\<close>

text \<open>
  A read beyond an array has no defined value in C; the model reads 0 there, and
  a write beyond the array (\<open>xs[i := v]\<close> with \<open>i\<close> out of range) changes nothing.
  \<open>memcpy_into dst off src n\<close> is \<open>memcpy(&dst[off], src, n)\<close>; a copy that would run
  past the end of either array is likewise outside C's defined behaviour, and the model
  leaves the destination as it is.  \<open>memcpy_from src off n\<close> is the block that
  \<open>memcpy(buf, &src[off], n)\<close> stores in the caller's buffer.
\<close>

definition byte_at :: "u8 list \<Rightarrow> nat \<Rightarrow> u8" where
  "byte_at xs i = (if i < length xs then xs ! i else 0)"

definition memcpy_into :: "u8 list \<Rightarrow> nat \<Rightarrow> u8 list \<Rightarrow> nat \<Rightarrow> u8 list" where
  "memcpy_into dst off src n =
     (if off + n \<le> length dst \<and> n \<le> length src
      then take off dst @ take n src @ drop (off + n) dst else dst)"

definition memcpy_from :: "u8 list \<Rightarrow> nat \<Rightarrow> nat \<Rightarrow> u8 list" where
  "memcpy_from src off n = map (byte_at src) [off ..< off + n]"

subsection \<open>State\<close>

text \<open>
  Calls that leave these sources and are taken not to touch the variables below:
  the \<open>+++\<close> detector of the AT parser, and the packet layer's note of the serial speed.
\<close>

datatype ext_call = At_plus_detector u8 | Packet_set_serial_speed "32 word"

text \<open>
  The file-scope variables of \<open>serial.c\<close>, the variables it shares with other files
  (\<open>uboot_silence_mode\<close>, \<open>uboot_silence_counter\<close>, \<open>errors\<close>, \<open>at_mode_active\<close>,
  \<open>at_cmd_ready\<close>, \<open>feature_rtscts\<close>), and the special function registers and pins the
  driver touches.  \<open>sbuf0\<close> is the receive side of \<open>SBUF0\<close>; \<open>wire_out\<close> lists the bytes
  written to its transmit side.  \<open>cfg_serial_cts\<close> and \<open>cfg_serial_rts\<close> say whether the
  board header defines the macros \<open>SERIAL_CTS\<close> and \<open>SERIAL_RTS\<close>; the header is not part
  of the sources, and no operation changes these two fields.
\<close>

record serial_state =
  rx_buf :: "u8 list"
  tx_buf :: "u8 list"
  rx_insert :: u16
  rx_remove :: u16
  tx_insert :: u16
  tx_remove :: u16
  last_was_bang :: bool
  tx_buffered_data :: bool
  rts_count :: u8
  tx_idle :: bool
  uboot_counter :: u8
  last_byte :: u8
  uboot_silence_mode :: bool
  uboot_silence_counter :: u16
  serial_rx_overflow :: u16
  serial_tx_overflow :: u16
  at_mode_active :: bool
  at_cmd_ready :: bool
  feature_rtscts :: bool
  ri0 :: bool
  ti0 :: bool
  es0 :: bool
  sbuf0 :: u8
  wire_out :: "u8 list"
  serial_cts :: bool
  serial_rts :: bool
  led_bootloader :: bool
  tr1 :: bool
  tmod :: u8
  th1 :: u8
  ckcon :: u8
  scon0 :: u8
  cfg_serial_cts :: bool
  cfg_serial_rts :: bool
  ext_calls :: "ext_call list"

subsection \<open>Queries\<close>

definition serial_write_space :: "serial_state \<Rightarrow> u16" where
  "serial_write_space s = BUF_FREE TX_BUFF_MAX (tx_insert s) (tx_remove s)"

definition serial_read_available :: "serial_state \<Rightarrow> u16" where
  "serial_read_available s = BUF_USED RX_BUFF_MAX (rx_insert s) (rx_remove s)"

subsection \<open>Transmit side\<close>

definition serial_restart :: "serial_state \<Rightarrow> serial_state" where
  "serial_restart s =
     (if cfg_serial_rts s \<and> feature_rtscts s \<and> serial_rts s \<and> \<not> at_mode_active s
      then s
      else s\<lparr>tx_idle := False, ti0 := True\<rparr>)"

text \<open>
  The static function \<open>_serial_write\<close>.  It saves, clears and restores \<open>ES0\<close>; in this
  sequential model that leaves \<open>ES0\<close> as it was.
\<close>

definition serial_write_raw :: "u8 \<Rightarrow> serial_state \<Rightarrow> serial_state" where
  "serial_write_raw c s =
     (if BUF_NOT_FULL TX_BUFF_MAX (tx_insert s) (tx_remove s)
      then let s1 = s\<lparr>tx_buf := (tx_buf s)[unat (tx_insert s) := c],
                       tx_insert := BUF_NEXT TX_BUFF_MAX (tx_insert s)\<rparr>
           in if tx_idle s1 then serial_restart s1 else s1
      else if serial_tx_overflow s \<noteq> 0xFFFF
      then s\<lparr>serial_tx_overflow := serial_tx_overflow s + 1\<rparr>
      else s)"

definition serial_write :: "u8 \<Rightarrow> serial_state \<Rightarrow> bool \<times> serial_state" where
  "serial_write c s =
     (if uboot_silence_mode s then (False, s)
      else if serial_write_space s < 1 then (False, s)
      else (True, serial_write_raw c s))"

definition putchar_r :: "u8 \<Rightarrow> serial_state \<Rightarrow> serial_state" where
  "putchar_r c s = serial_write_raw c (if c = 0x0A then serial_write_raw 0x0D s else s)"

text \<open>
  \<open>serial_write_buf(buf, count)\<close>: \<open>buf\<close> is the caller's block, of which the function
  reads the first \<open>count\<close> bytes.  \<open>count\<close> and \<open>n1\<close> are \<open>uint8_t\<close>, \<open>space\<close> is
  \<open>uint16_t\<close>.
\<close>

definition serial_write_buf :: "u8 list \<Rightarrow> u8 \<Rightarrow> serial_state \<Rightarrow> serial_state" where
  "serial_write_buf buf count s =
     (if count = 0 then s
      else
        let space = serial_write_space s;
            truncated = (ucast count > space);
            count1 = (if truncated then ucast space else count);
            s1 = (if truncated \<and> serial_tx_overflow s \<noteq> 0xFFFF
                  then s\<lparr>serial_tx_overflow := serial_tx_overflow s + 1\<rparr> else s);
            n1 = (if ucast count1 > TX_BUFF_MAX - tx_insert s1
                  then ucast (TX_BUFF_MAX - tx_insert s1) else count1);
            s2 = s1\<lparr>tx_buf := memcpy_into (tx_buf s1) (unat (tx_insert s1)) buf (unat n1)\<rparr>;
            buf2 = drop (unat n1) buf;
            count2 = count1 - n1;
            ins = tx_insert s2 + ucast n1;
            s3 = s2\<lparr>tx_insert := (if ins \<ge> TX_BUFF_MAX then ins - TX_BUFF_MAX else ins)\<rparr>;
            s4 = (if count2 \<noteq> 0
                  then s3\<lparr>tx_buf := memcpy_into (tx_buf s3) 0 buf2 (unat count2),
                          tx_insert := ucast count2\<rparr>
                  else s3)
        in if tx_idle s4 then serial_restart s4 else s4)"

definition serial_check_rts :: "serial_state \<Rightarrow> serial_state" where
  "serial_check_rts s =
     (if BUF_NOT_EMPTY (tx_insert s) (tx_remove s) \<and> tx_idle s then serial_restart s else s)"

subsection \<open>Receive side\<close>

text \<open>The \<open>#ifdef SERIAL_CTS\<close> blocks that release and assert the ready-to-receive line.\<close>

definition cts_release :: "serial_state \<Rightarrow> serial_state" where
  "cts_release s =
     (if cfg_serial_cts s
         \<and> BUF_FREE RX_BUFF_MAX (rx_insert s) (rx_remove s) > SERIAL_CTS_THRESHOLD_HIGH
      then s\<lparr>serial_cts := False\<rparr> else s)"

definition cts_assert :: "serial_state \<Rightarrow> serial_state" where
  "cts_assert s =
     (if cfg_serial_cts s
         \<and> BUF_FREE RX_BUFF_MAX (rx_insert s) (rx_remove s) < SERIAL_CTS_THRESHOLD_LOW
      then s\<lparr>serial_cts := True\<rparr> else s)"

definition serial_read :: "serial_state \<Rightarrow> u8 \<times> serial_state" where
  "serial_read s =
     (if BUF_NOT_EMPTY (rx_insert s) (rx_remove s)
      then (byte_at (rx_buf s) (unat (rx_remove s)),
            cts_release (s\<lparr>rx_remove := BUF_NEXT RX_BUFF_MAX (rx_remove s)\<rparr>))
      else (0, cts_release s))"

text \<open>
  \<open>serial_read_buf(buf, count)\<close> returns its \<open>bool\<close>, the bytes it has stored in the
  caller's buffer, in order, and the new state.  \<open>count\<close> is \<open>uint8_t\<close>, \<open>n1\<close> is
  \<open>uint16_t\<close>.
\<close>

definition serial_read_buf :: "u8 \<Rightarrow> serial_state \<Rightarrow> bool \<times> u8 list \<times> serial_state" where
  "serial_read_buf count s =
     (if ucast count > serial_read_available s then (False, [], s)
      else
        let n1 = (if (ucast count :: u16) > RX_BUFF_MAX - rx_remove s
                  then RX_BUFF_MAX - rx_remove s else ucast count);
            out1 = memcpy_from (rx_buf s) (unat (rx_remove s)) (unat n1);
            count2 = count - ucast n1;
            rem = rx_remove s + n1;
            s1 = s\<lparr>rx_remove := (if rem \<ge> RX_BUFF_MAX then rem - RX_BUFF_MAX else rem)\<rparr>;
            out2 = (if count2 > 0 then memcpy_from (rx_buf s1) 0 (unat count2) else []);
            s2 = (if count2 > 0 then s1\<lparr>rx_remove := ucast count2\<rparr> else s1)
        in (True, out1 @ out2, cts_release s2))"

subsection \<open>Initialisation\<close>

definition serial_rates :: "(u8 \<times> u8 \<times> u8) list" where
  "serial_rates = [(1, 0x2C, 0x02), (2, 0x96, 0x02), (4, 0x2C, 0x00), (9, 0x96, 0x00),
     (19, 0x60, 0x01), (38, 0xb0, 0x01), (57, 0x2b, 0x08), (115, 0x96, 0x08),
     (230, 0xcb, 0x08)]"

text \<open>The search loop: the index of the first entry with this rate, or the table's length.\<close>

fun rate_search :: "u8 \<Rightarrow> (u8 \<times> u8 \<times> u8) list \<Rightarrow> nat" where
  "rate_search speed [] = 0"
| "rate_search speed (r # rs) = (if speed = fst r then 0 else Suc (rate_search speed rs))"

definition serial_device_valid_speed :: "u8 \<Rightarrow> bool" where
  "serial_device_valid_speed speed = (rate_search speed serial_rates < length serial_rates)"

definition serial_device_set_speed :: "u8 \<Rightarrow> serial_state \<Rightarrow> serial_state" where
  "serial_device_set_speed speed s =
     (let i0 = rate_search speed serial_rates;
          i = (if i0 = length serial_rates then 6 else i0)
      in s\<lparr>th1 := fst (snd (serial_rates ! i)),
            ckcon := (ckcon s AND NOT 0x0b) OR snd (snd (serial_rates ! i)),
            ext_calls := ext_calls s @ [Packet_set_serial_speed (ucast speed * 125)]\<rparr>)"

definition serial_init :: "u8 \<Rightarrow> serial_state \<Rightarrow> serial_state" where
  "serial_init speed s =
     (let s1 = s\<lparr>es0 := False\<rparr>;
          s2 = s1\<lparr>rx_insert := 0, rx_remove := 0, tx_insert := 0, tx_remove := 0,
                  tx_idle := True\<rparr>;
          s3 = s2\<lparr>tr1 := False, tmod := (tmod s2 AND NOT 0xf0) OR 0x20\<rparr>;
          s4 = serial_device_set_speed speed s3;
          s5 = s4\<lparr>tr1 := True, scon0 := 0x10\<rparr>;
          s6 = (if cfg_serial_cts s5 then s5\<lparr>serial_cts := False\<rparr> else s5)
      in s6\<lparr>es0 := True\<rparr>)"

subsection \<open>The interrupt handler\<close>

text \<open>
  One run of \<open>serial_interrupt\<close> ends in one of three ways.  \<open>Returned s\<close>: the handler
  has returned with state \<open>s\<close>.  \<open>Dispatch k s\<close>: the received byte \<open>k\<close> selected the
  branch of a single-letter command, entered in state \<open>s\<close>.  The model stops where such
  a branch begins: most command bodies call radio, EEPROM, flash, parameter and print
  routines that are not part of these sources, two of them end in a device reset, and
  no property below is about what a command does.  \<open>At_input k s\<close>: in AT command
  mode the byte was handed to the AT parser, also outside these sources, in state \<open>s\<close>.
\<close>

datatype irq_result = Returned serial_state | Dispatch u8 serial_state | At_input u8 serial_state

text \<open>The boot-banner detector at the head of the receive path.\<close>

definition uboot_detect :: "u8 \<Rightarrow> serial_state \<Rightarrow> serial_state" where
  "uboot_detect c s =
     (let s1 = (if (last_byte s = 0x86 \<and> c = 0x98) \<or> (last_byte s = 0x98 \<and> c = 0x86)
                then s\<lparr>uboot_counter := uboot_counter s + 1\<rparr>
                else s\<lparr>uboot_counter := 0\<rparr>);
          s2 = (if uboot_counter s1 \<ge> 80
                then s1\<lparr>led_bootloader := True, uboot_silence_counter := 20 * 100,
                        uboot_counter := 0, uboot_silence_mode := True\<rparr>
                else s1)
      in s2\<lparr>last_byte := c\<rparr>)"

text \<open>
  \<open>if (BUF_NOT_FULL(rx)) BUF_INSERT(rx, c); else\<close> count the overflow, saturating.
\<close>

definition rx_enqueue :: "u8 \<Rightarrow> serial_state \<Rightarrow> serial_state" where
  "rx_enqueue c s =
     (if BUF_NOT_FULL RX_BUFF_MAX (rx_insert s) (rx_remove s)
      then s\<lparr>rx_buf := (rx_buf s)[unat (rx_insert s) := c],
             rx_insert := BUF_NEXT RX_BUFF_MAX (rx_insert s)\<rparr>
      else if serial_rx_overflow s \<noteq> 0xFFFF
      then s\<lparr>serial_rx_overflow := serial_rx_overflow s + 1\<rparr>
      else s)"

text \<open>
  The chain of tests on the received byte, in the order of the source.  The bytes are
  \<open>'!'\<close> = 0x21, then \<open>M H L P B C\<close>, the ranges \<open>a\<close>..\<open>z\<close> and \<open>0\<close>..\<open>9\<close>, then
  \<open>D E I F 0 Y Z R V\<close>, \<open>'.'\<close> = 0x2E, and the error indicator \<open>'E'\<close> = 0x45.
\<close>

definition escape_process :: "u8 \<Rightarrow> serial_state \<Rightarrow> irq_result" where
  "escape_process c s =
     (if c = 0x21 then
        let s1 = (if uboot_silence_mode s
                  then s\<lparr>uboot_silence_mode := False, uboot_silence_counter := 0,
                         led_bootloader := False\<rparr>
                  else s)
        in Returned (if last_was_bang s1
                     then s1\<lparr>tx_buffered_data := True, last_was_bang := False\<rparr>
                     else s1\<lparr>last_was_bang := True\<rparr>)
      else if c = 0x4D \<and> last_was_bang s then Dispatch c s
      else if c = 0x48 \<and> last_was_bang s then Dispatch c s
      else if c = 0x4C \<and> last_was_bang s then Dispatch c s
      else if c = 0x50 \<and> last_was_bang s then Dispatch c s
      else if c = 0x42 \<and> last_was_bang s then Dispatch c s
      else if c = 0x43 \<and> last_was_bang s then Dispatch c s
      else if (c \<ge> 0x61 \<and> c \<le> 0x7A \<and> last_was_bang s)
              \<or> (c \<ge> 0x30 \<and> c \<le> 0x39 \<and> last_was_bang s) then Dispatch c s
      else if c = 0x44 \<and> last_was_bang s then Dispatch c s
      else if c = 0x45 \<and> last_was_bang s then Dispatch c s
      else if c = 0x49 \<and> last_was_bang s then Dispatch c s
      else if c = 0x46 \<and> last_was_bang s then Dispatch c s
      else if c = 0x30 \<and> last_was_bang s then Dispatch c s
      else if c = 0x59 \<and> last_was_bang s then Dispatch c s
      else if c = 0x5A \<and> last_was_bang s then Dispatch c s
      else if c = 0x52 \<and> last_was_bang s then Dispatch c s
      else if c = 0x56 \<and> last_was_bang s then Dispatch c s
      else if c = 0x2E \<and> last_was_bang s
      then Returned (rx_enqueue 0x21 (s\<lparr>last_was_bang := False\<rparr>))
      else if last_was_bang s
      then Returned (putchar_r 0x45 (s\<lparr>last_was_bang := False\<rparr>))
      else Returned (rx_enqueue c s))"

text \<open>\<open>BUF_REMOVE(tx, c); SBUF0 = c;\<close>\<close>

definition tx_fetch_send :: "serial_state \<Rightarrow> serial_state" where
  "tx_fetch_send s =
     s\<lparr>wire_out := wire_out s @ [byte_at (tx_buf s) (unat (tx_remove s))],
       tx_remove := BUF_NEXT TX_BUFF_MAX (tx_remove s)\<rparr>"

text \<open>The transmit half, \<open>if (TI0) { ... }\<close>.\<close>

definition serial_interrupt_tx :: "serial_state \<Rightarrow> serial_state" where
  "serial_interrupt_tx s =
     (if ti0 s then
        let s1 = s\<lparr>ti0 := False\<rparr> in
        if BUF_NOT_EMPTY (tx_insert s1) (tx_remove s1) then
          if cfg_serial_rts s1 \<and> feature_rtscts s1 then
            if serial_rts s1 \<and> \<not> at_mode_active s1 then
              if rts_count s1 = 0 then s1\<lparr>tx_idle := True\<rparr>
              else tx_fetch_send (s1\<lparr>rts_count := rts_count s1 - 1\<rparr>)
            else tx_fetch_send (s1\<lparr>rts_count := 8\<rparr>)
          else tx_fetch_send s1
        else s1\<lparr>tx_idle := True\<rparr>
      else s)"

definition serial_interrupt :: "serial_state \<Rightarrow> irq_result" where
  "serial_interrupt s =
     (if ri0 s then
        let c = sbuf0 s;
            s1 = uboot_detect c (s\<lparr>ri0 := False\<rparr>)
        in if at_mode_active s1 then
             (if \<not> at_cmd_ready s1 then At_input c s1
              else Returned (serial_interrupt_tx s1))
           else (case escape_process c (s1\<lparr>ext_calls := ext_calls s1 @ [At_plus_detector c]\<rparr>) of
                   Returned s2 \<Rightarrow> Returned (serial_interrupt_tx (cts_assert s2))
                 | Dispatch k s2 \<Rightarrow> Dispatch k s2
                 | At_input k s2 \<Rightarrow> At_input k s2)
      else Returned (serial_interrupt_tx s))"

text \<open>The UART receives byte \<open>c\<close>: it latches it, raises \<open>RI0\<close>, and the handler runs.\<close>

definition receive :: "u8 \<Rightarrow> serial_state \<Rightarrow> irq_result" where
  "receive c s = serial_interrupt (s\<lparr>ri0 := True, sbuf0 := c\<rparr>)"

fun receive_all :: "u8 list \<Rightarrow> serial_state \<Rightarrow> irq_result" where
  "receive_all [] s = Returned s"
| "receive_all (c # cs) s =
     (case receive c s of Returned s1 \<Rightarrow> receive_all cs s1
      | Dispatch k s1 \<Rightarrow> Dispatch k s1
      | At_input k s1 \<Rightarrow> At_input k s1)"

text \<open>
  The bytes that, with the escape pending, fall through every test of the chain down
  to \<open>else if (last_was_bang)\<close>, the branch that answers \<open>E\<close>: not \<open>!\<close>, none of the
  letters or ranges tested before, and not \<open>.\<close>.
\<close>

definition no_command :: "u8 \<Rightarrow> bool" where
  "no_command c =
     (c \<noteq> 0x21 \<and> c \<notin> set [0x4D, 0x48, 0x4C, 0x50, 0x42, 0x43]
      \<and> \<not> (c \<ge> 0x61 \<and> c \<le> 0x7A) \<and> \<not> (c \<ge> 0x30 \<and> c \<le> 0x39)
      \<and> c \<notin> set [0x44, 0x45, 0x49, 0x46, 0x30, 0x59, 0x5A, 0x52, 0x56] \<and> c \<noteq> 0x2E)"

text \<open>
  A run of received bytes each of which the banner detector counts: it is 0x98 after
  0x86 or 0x86 after 0x98, the first one measured against the byte received before
  the run.
\<close>

fun banner_run :: "u8 \<Rightarrow> u8 list \<Rightarrow> bool" where
  "banner_run prev [] = True"
| "banner_run prev (c # cs) =
     (((prev = 0x86 \<and> c = 0x98) \<or> (prev = 0x98 \<and> c = 0x86)) \<and> banner_run c cs)"

subsection \<open>What the buffers hold\<close>

text \<open>
  The bytes a ring holds, oldest first: those from the remove index up to the insert
  index, going round.  The outbound stream is what has gone to the wire followed by
  what waits in the TX ring.
\<close>

definition ring_contents :: "nat \<Rightarrow> u8 list \<Rightarrow> nat \<Rightarrow> nat \<Rightarrow> u8 list" where
  "ring_contents cap buf ins rem =
     map (\<lambda>j. buf ! ((rem + j) mod cap)) [0 ..< (ins + cap - rem) mod cap]"

definition rx_contents :: "serial_state \<Rightarrow> u8 list" where
  "rx_contents s = ring_contents 256 (rx_buf s) (unat (rx_insert s)) (unat (rx_remove s))"

definition tx_contents :: "serial_state \<Rightarrow> u8 list" where
  "tx_contents s = ring_contents 512 (tx_buf s) (unat (tx_insert s)) (unat (tx_remove s))"

definition outbound :: "serial_state \<Rightarrow> u8 list" where
  "outbound s = wire_out s @ tx_contents s"

text \<open>The states the driver can be in: both arrays at their size, every index inside.\<close>

definition rings_ok :: "serial_state \<Rightarrow> bool" where
  "rings_ok s =
     (length (rx_buf s) = 256 \<and> length (tx_buf s) = 512
      \<and> rx_insert s < 256 \<and> rx_remove s < 256 \<and> tx_insert s < 512 \<and> tx_remove s < 512)"

text \<open>
  A concrete state: every variable zero, as C start-up leaves them, on a board whose
  header defines both flow-control pins.
\<close>

definition zero_state :: serial_state where
  "zero_state = \<lparr>rx_buf = replicate 256 0, tx_buf = replicate 512 0,
     rx_insert = 0, rx_remove = 0, tx_insert = 0, tx_remove = 0,
     last_was_bang = False, tx_buffered_data = False, rts_count = 0, tx_idle = False,
     uboot_counter = 0, last_byte = 0, uboot_silence_mode = False,
     uboot_silence_counter = 0, serial_rx_overflow = 0, serial_tx_overflow = 0,
     at_mode_active = False, at_cmd_ready = False, feature_rtscts = False,
     ri0 = False, ti0 = False, es0 = False, sbuf0 = 0, wire_out = [],
     serial_cts = False, serial_rts = False, led_bootloader = False,
     tr1 = False, tmod = 0, th1 = 0, ckcon = 0, scon0 = 0,
     cfg_serial_cts = True, cfg_serial_rts = True, ext_calls = []\<rparr>"

text \<open>
  Two more concrete states: one with the bytes \<open>A B\<close> waiting in the RX ring, and one
  in the middle of an escape sequence, during silence mode.
\<close>

definition two_queued :: serial_state where
  "two_queued = zero_state\<lparr>rx_buf := 0x41 # 0x42 # replicate 254 0, rx_insert := 2\<rparr>"

definition mid_escape :: serial_state where
  "mid_escape = zero_state\<lparr>last_was_bang := True, tx_buffered_data := True, rts_count := 5,
     uboot_silence_mode := True, uboot_silence_counter := 1234\<rparr>"

text \<open>A state with 509 bytes waiting in the TX ring and none sent yet.\<close>

definition nearly_full :: serial_state where
  "nearly_full = zero_state\<lparr>tx_insert := 509\<rparr>"

text \<open>
  States with the RX ring full (255 bytes waiting), with the TX ring full, and in AT
  command mode with the parser ready for input.
\<close>

definition rx_full :: serial_state where
  "rx_full = zero_state\<lparr>rx_insert := 255\<rparr>"

definition tx_full :: serial_state where
  "tx_full = zero_state\<lparr>tx_insert := 511\<rparr>"

definition at_mode :: serial_state where
  "at_mode = zero_state\<lparr>at_mode_active := True\<rparr>"

text \<open>States in silence mode, outside and inside AT command mode.\<close>

definition silent :: serial_state where
  "silent = zero_state\<lparr>uboot_silence_mode := True, uboot_silence_counter := 2000\<rparr>"

definition at_silent :: serial_state where
  "at_silent = silent\<lparr>at_mode_active := True, at_cmd_ready := True\<rparr>"

section \<open>Interleaver: properties\<close>

text \<open>
  Claim C1 (round trip of \<open>set_bit\<close> then \<open>get_bit\<close>).  The code does not give it:
  with \<open>n = 3\<close>, the buffer \<open>FF 00 00\<close>, bit index 0 and value 0, the write leaves
  \<open>FE 00 00\<close> and the read of the same bit index answers 1, not the 0 written.
  The read tests the whole shifted byte instead of its lowest bit.
\<close>

theorem C1_roundtrip_lost:
  "interleave_setbit 3 [0xFF, 0, 0] 0 0 = Some [0xFE, 0, 0]
   \<and> interleave_getbit 3 [0xFE, 0, 0] 0 = Some 1"
  by (simp add: interleave_setbit_def interleave_getbit_def interleave_pos_def steps_def)

text \<open>
  Claim C2 (the position is \<open>(bit_index * stride[n/3]) mod 8n\<close>, and exactly that one
  bit is read or written).  The code reduces modulo \<open>n\<close>, not \<open>8n\<close>: with \<open>n = 3\<close> and
  bit index 1 it sets bit 1 of byte 0, where the claimed position \<open>7 mod 24 = 7\<close> is
  bit 7 of byte 0.  Its clearing mask also wipes every lower bit of the byte:
  clearing bit index 1 in \<open>FF 00 00\<close> leaves \<open>FC 00 00\<close>.  And its read of bit index 1
  in \<open>04 00 00\<close> answers 1, where bit 7 of byte 0 is clear.
\<close>

theorem C2_position_differs:
  "interleave_setbit 3 [0, 0, 0] 1 1 = Some [0x02, 0, 0]
   \<and> spec_set_bit 3 [0, 0, 0] 1 True = [0x80, 0, 0]
   \<and> interleave_setbit 3 [0xFF, 0, 0] 1 0 = Some [0xFC, 0, 0]
   \<and> spec_set_bit 3 [0xFF, 0, 0] 1 False = [0x7F, 0, 0]
   \<and> interleave_getbit 3 [0x04, 0, 0] 1 = Some 1
   \<and> \<not> spec_get_bit 3 [0x04, 0, 0] 1"
  by (simp add: interleave_setbit_def interleave_getbit_def interleave_pos_def
      spec_set_bit_def spec_get_bit_def spec_permuted_index_def steps_def)

text \<open>
  Claim C3 (for every length class the stride is a bijection on \<open>[0, 8n)\<close>).  The table
  does not give it: for \<open>n = 6\<close> the stride is 9, which shares the factor 3 with 48,
  and bit indices 0 and 16 both land on position 0.
\<close>

theorem C3_stride_not_injective: "\<not> inj_on (spec_permuted_index 6) {0 ..< 8 * 6}"
proof
  assume inj: "inj_on (spec_permuted_index 6) {0 ..< 8 * 6}"
  have "spec_permuted_index 6 0 = spec_permuted_index 6 16"
    by (simp add: spec_permuted_index_def steps_def)
  with inj have "(0::nat) = 16" by (rule inj_onD) simp_all
  then show False by simp
qed

text \<open>
  The generator in the same file searches strides for the moduli 1, 25, 49, ... (its loop
  starts at \<open>n = 1\<close> and adds 24), and every entry of the table is indeed invertible
  modulo \<open>24k + 1\<close>, one more than the \<open>8n = 24k\<close> bits of its length class.
\<close>

lemma steps_coprime_generator_modulus:
  "list_all (\<lambda>k. coprime (unat (steps ! k)) (24 * k + 1)) [0 ..< 86]"
  by code_simp

section \<open>Ring buffers: properties\<close>

text \<open>
  Claim C4 (used is \<open>(insert - remove) mod capacity\<close>, free is \<open>capacity - used - 1\<close>).
  \<open>BUF_FREE\<close> does not subtract the slot that \<open>BUF_FULL\<close> keeps unused: right after
  \<open>serial_init\<close> both buffers are empty, and the free counts are the full 256 and 512.
\<close>

theorem C4_free_counts_all_slots:
  "serial_read_available (serial_init 57 zero_state) = 0
   \<and> BUF_FREE RX_BUFF_MAX (rx_insert (serial_init 57 zero_state))
        (rx_remove (serial_init 57 zero_state)) = 256
   \<and> BUF_USED TX_BUFF_MAX (tx_insert (serial_init 57 zero_state))
        (tx_remove (serial_init 57 zero_state)) = 0
   \<and> serial_write_space (serial_init 57 zero_state) = 512"
  by (simp add: serial_init_def serial_device_set_speed_def serial_read_available_def
      serial_write_space_def BUF_USED_def BUF_FREE_def RX_BUFF_MAX_def TX_BUFF_MAX_def
      zero_state_def Let_def)

subsection \<open>Arithmetic of a ring\<close>

lemma mod_wrap: "x < 2 * cap \<Longrightarrow> x mod cap = (if x < cap then x else x - cap)" for x cap :: nat
  by (simp add: mod_if)

lemma ring_used: "ins < cap \<Longrightarrow> rem < cap \<Longrightarrow>
   (ins + cap - rem) mod cap = (if rem \<le> ins then ins - rem else ins + cap - rem)" for ins cap rem :: nat
  by (simp add: mod_wrap)

lemma ring_contents_length:
  "length (ring_contents cap buf ins rem) = (ins + cap - rem) mod cap"
  by (simp add: ring_contents_def)

lemma ring_contents_push:
  assumes "ins < cap" "rem < cap" "length buf = cap" "(ins + 1) mod cap \<noteq> rem"
  shows "ring_contents cap (buf[ins := c]) ((ins + 1) mod cap) rem = ring_contents cap buf ins rem @ [c]"
proof (rule nth_equalityI)
  let ?u = "(ins + cap - rem) mod cap"
  have u: "((ins + 1) mod cap + cap - rem) mod cap = ?u + 1"
    using assms by (auto simp: mod_wrap split: if_splits)
  then have u': "(Suc ins mod cap + cap - rem) mod cap = Suc ?u" by simp
  show "length (ring_contents cap (buf[ins := c]) ((ins + 1) mod cap) rem)
        = length (ring_contents cap buf ins rem @ [c])"
    by (simp add: ring_contents_length u')
  fix i assume "i < length (ring_contents cap (buf[ins := c]) ((ins + 1) mod cap) rem)"
  then have i: "i \<le> ?u" by (simp add: ring_contents_length u')
  show "ring_contents cap (buf[ins := c]) ((ins + 1) mod cap) rem ! i
        = (ring_contents cap buf ins rem @ [c]) ! i"
  proof (cases "i < ?u")
    case True
    then have "(rem + i) mod cap \<noteq> ins"
      using assms by (auto simp: mod_wrap split: if_splits)
    then show ?thesis using True u'
      by (simp add: ring_contents_def nth_append)
  next
    case False
    with i have e: "i = ?u" by simp
    have "(rem + ?u) mod cap = ins"
      using assms by (auto simp: mod_wrap split: if_splits)
    then show ?thesis using e u' assms
      by (simp add: ring_contents_def nth_append)
  qed
qed

lemma ring_contents_drop:
  assumes "ins < cap" "rem < cap" "n \<le> (ins + cap - rem) mod cap"
  shows "ring_contents cap buf ins ((rem + n) mod cap) = drop n (ring_contents cap buf ins rem)"
proof (rule nth_equalityI)
  let ?u = "(ins + cap - rem) mod cap"
  have u: "(ins + cap - (rem + n) mod cap) mod cap = ?u - n"
    using assms by (auto simp: mod_wrap split: if_splits)
  show "length (ring_contents cap buf ins ((rem + n) mod cap)) = length (drop n (ring_contents cap buf ins rem))"
    by (simp add: ring_contents_length u)
  fix i assume "i < length (ring_contents cap buf ins ((rem + n) mod cap))"
  then have i: "i < ?u - n" by (simp add: ring_contents_length u)
  then have ni: "n + i < ?u" by simp
  have "((rem + n) mod cap + i) mod cap = (rem + (n + i)) mod cap"
    by (simp add: mod_add_left_eq add.assoc)
  then show "ring_contents cap buf ins ((rem + n) mod cap) ! i = drop n (ring_contents cap buf ins rem) ! i"
    using i ni u by (simp add: ring_contents_def)
qed

lemma ring_contents_take:
  assumes "rem < cap" "n \<le> (ins + cap - rem) mod cap"
  shows "take n (ring_contents cap buf ins rem) = map (\<lambda>j. buf ! ((rem + j) mod cap)) [0 ..< n]"
  using assms by (simp add: ring_contents_def take_map)

lemma ring_contents_pop:
  assumes "ins < cap" "rem < cap" "ins \<noteq> rem"
  shows "ring_contents cap buf ins rem = buf ! rem # ring_contents cap buf ins ((rem + 1) mod cap)"
proof -
  have pos: "1 \<le> (ins + cap - rem) mod cap"
    using assms by (auto simp: mod_wrap split: if_splits)
  then have ne: "ring_contents cap buf ins rem \<noteq> []"
    using ring_contents_length [of cap buf ins rem] by auto
  have hd: "hd (ring_contents cap buf ins rem) = buf ! rem"
    using pos assms ne by (simp add: hd_conv_nth ring_contents_def)
  have "ring_contents cap buf ins ((rem + 1) mod cap) = tl (ring_contents cap buf ins rem)"
    using ring_contents_drop [OF assms(1,2) pos] by (simp add: drop_Suc)
  with hd ne show ?thesis by (metis list.collapse)
qed

subsection \<open>The macros on in-range indices, as natural numbers\<close>

lemma u8_bound: "unat (n::u8) < 256"
  using unsigned_less [of n, where 'a = nat] by simp

lemma u16_bound: "unat (n::u16) < 65536"
  using unsigned_less [of n, where 'a = nat] by simp

lemma unat_ucast_8_16: "unat (ucast (n::u8) :: u16) = unat n"
  using u8_bound [of n] by (simp add: unsigned_ucast_eq take_bit_nat_eq_self_iff)

lemma unat_ucast_16_8: "unat (w::u16) < 256 \<Longrightarrow> unat (ucast w :: u8) = unat w"
  by (simp add: unsigned_ucast_eq take_bit_nat_eq_self_iff)

lemma unat_BUF_NEXT:
  "i < sz \<Longrightarrow> unat (BUF_NEXT sz i) = (unat i + 1) mod unat sz"
proof -
  assume a: "i < sz"
  then have lt: "unat i < unat sz" by (simp add: word_less_nat_alt)
  have "unat sz < 2 ^ 16" using u16_bound [of sz] by simp
  with lt have "unat i + unat (1::u16) < 2 ^ LENGTH(16)" by simp
  then have s: "unat (i + 1) = unat i + 1" by (simp add: unat_add_lem [THEN iffD1])
  show ?thesis
  proof (cases "i + 1 = sz")
    case True
    then have "unat i + 1 = unat sz" using s by simp
    then show ?thesis by (simp add: BUF_NEXT_def True)
  next
    case False
    then have "unat (i + 1) \<noteq> unat sz" by (simp add: word_unat_eq_iff)
    with s lt have "unat i + 1 < unat sz" by simp
    then show ?thesis using s False by (simp add: BUF_NEXT_def)
  qed
qed

lemma unat_BUF_USED:
  assumes "ins < sz" "rem < sz"
  shows "unat (BUF_USED sz ins rem) = (unat ins + unat sz - unat rem) mod unat sz"
proof -
  have i: "unat ins < unat sz" and r: "unat rem < unat sz"
    using assms by (simp_all add: word_less_nat_alt)
  have b: "unat sz < 65536" by (rule u16_bound)
  show ?thesis
  proof (cases "rem \<le> ins")
    case True
    then have "unat rem \<le> unat ins" by (simp add: word_le_nat_alt)
    then show ?thesis using True i r by (simp add: BUF_USED_def unat_sub ring_used)
  next
    case False
    then have lt: "unat ins < unat rem" by (simp add: word_le_nat_alt)
    have "rem \<le> sz" using assms by simp
    then have d: "unat (sz - rem) = unat sz - unat rem" by (rule unat_sub)
    have "unat (sz - rem) + unat ins < 2 ^ LENGTH(16)" using d i r b lt by simp
    then have "unat ((sz - rem) + ins) = unat (sz - rem) + unat ins"
      by (simp add: unat_add_lem [THEN iffD1])
    then show ?thesis using False d i r lt by (simp add: BUF_USED_def ring_used)
  qed
qed

lemma unat_BUF_FREE:
  assumes "ins < sz" "rem < sz" "unat sz \<le> 32767"
  shows "unat (BUF_FREE sz ins rem) = unat sz - (unat ins + unat sz - unat rem) mod unat sz"
proof -
  have i: "unat ins < unat sz" and r: "unat rem < unat sz"
    using assms by (simp_all add: word_less_nat_alt)
  show ?thesis
  proof (cases "rem \<le> ins")
    case True
    then have ri: "unat rem \<le> unat ins" by (simp add: word_le_nat_alt)
    have "unat sz + unat rem < 2 ^ LENGTH(16)" using assms(3) r by simp
    then have a: "unat (sz + rem) = unat sz + unat rem" by (simp add: unat_add_lem [THEN iffD1])
    then have "unat ins \<le> unat (sz + rem)" using i by simp
    then have "ins \<le> sz + rem" by (simp add: word_le_nat_alt)
    then have "unat (sz + rem - ins) = unat (sz + rem) - unat ins" by (rule unat_sub)
    then show ?thesis using True a i r ri by (simp add: BUF_FREE_def ring_used)
  next
    case False
    then have lt: "unat ins < unat rem" by (simp add: word_le_nat_alt)
    then have "ins \<le> rem" by (simp add: word_le_nat_alt)
    then have "unat (rem - ins) = unat rem - unat ins" by (rule unat_sub)
    then show ?thesis using False i r lt by (simp add: BUF_FREE_def ring_used)
  qed
qed

lemma used_plus_free:
  assumes "ins < sz" "rem < sz" "unat sz \<le> 32767"
  shows "unat (BUF_USED sz ins rem) + unat (BUF_FREE sz ins rem) = unat sz"
proof -
  have "unat ins < unat sz" using assms by (simp add: word_less_nat_alt)
  then have "(unat ins + unat sz - unat rem) mod unat sz < unat sz" by simp
  then show ?thesis using assms by (simp add: unat_BUF_USED unat_BUF_FREE)
qed

section \<open>Block read\<close>

lemma ring_block:
  assumes "rem < cap" "length buf = cap" "n \<le> cap" "n1 = min n (cap - rem)"
  shows "memcpy_from buf rem n1 @ memcpy_from buf 0 (n - n1)
         = map (\<lambda>j. buf ! ((rem + j) mod cap)) [0 ..< n]"
proof (rule nth_equalityI)
  show "length (memcpy_from buf rem n1 @ memcpy_from buf 0 (n - n1))
        = length (map (\<lambda>j. buf ! ((rem + j) mod cap)) [0 ..< n])"
    using assms by (simp add: memcpy_from_def)
  fix i assume "i < length (memcpy_from buf rem n1 @ memcpy_from buf 0 (n - n1))"
  then have i: "i < n" using assms by (simp add: memcpy_from_def)
  show "(memcpy_from buf rem n1 @ memcpy_from buf 0 (n - n1)) ! i
        = map (\<lambda>j. buf ! ((rem + j) mod cap)) [0 ..< n] ! i"
  proof (cases "i < n1")
    case True
    then have "i < cap - rem" using assms by simp
    then have "rem + i < cap" by arith
    then show ?thesis using True i assms
      by (simp add: memcpy_from_def nth_append byte_at_def)
  next
    case False
    then have n1: "n1 = cap - rem" using assms i by (simp add: min_def split: if_splits)
    have ge: "cap \<le> rem + i" using False n1 assms by arith
    have "rem + i < 2 * cap" using i assms by arith
    then have "(rem + i) mod cap = rem + i - cap" using ge by (simp add: mod_wrap)
    also have "\<dots> = i - n1" using n1 ge assms by arith
    finally have "(rem + i) mod cap = i - n1" .
    moreover have "i - n1 < cap" using i assms by simp
    ultimately show ?thesis using False i assms
      by (simp add: memcpy_from_def nth_append byte_at_def)
  qed
qed

lemma frame_cts_release [simp]:
  "rx_buf (cts_release s) = rx_buf s" "rx_insert (cts_release s) = rx_insert s"
  "rx_remove (cts_release s) = rx_remove s"
  by (simp_all add: cts_release_def)

lemma rx_contents_cts_release [simp]: "rx_contents (cts_release s) = rx_contents s"
  by (simp add: rx_contents_def)

lemma unat_read_available:
  "rings_ok s \<Longrightarrow> unat (serial_read_available s) = length (rx_contents s)"
  by (simp add: rings_ok_def serial_read_available_def RX_BUFF_MAX_def unat_BUF_USED
      rx_contents_def ring_contents_length)

lemma serial_read_buf_short:
  assumes "rings_ok s" "length (rx_contents s) < unat count"
  shows "serial_read_buf count s = (False, [], s)"
proof -
  have "unat (serial_read_available s) < unat (ucast count :: u16)"
    using assms by (simp add: unat_read_available unat_ucast_8_16)
  then have "serial_read_available s < ucast count" by (simp add: word_less_nat_alt)
  then show ?thesis by (simp add: serial_read_buf_def)
qed


lemma unat_eq_word: "unat (w::'a::len word) = unat v \<Longrightarrow> w = v"
  by (simp only: word_unat_eq_iff)

lemma serial_read_buf_ok:
  assumes ok: "rings_ok s" and fit: "unat count \<le> length (rx_contents s)"
  shows "\<exists>r. unat r = (unat (rx_remove s) + unat count) mod 256
           \<and> serial_read_buf count s =
               (True, take (unat count) (rx_contents s), cts_release (s\<lparr>rx_remove := r\<rparr>))"
proof -
  let ?R = "unat (rx_remove s)" and ?N = "unat count"
  have len: "length (rx_buf s) = 256" and r: "rx_remove s < 256" and i: "rx_insert s < 256"
    using ok by (simp_all add: rings_ok_def)
  have R: "?R < 256" using r by (simp add: word_less_nat_alt)
  have I: "unat (rx_insert s) < 256" using i by (simp add: word_less_nat_alt)
  have N: "?N < 256" by (rule u8_bound)
  have N': "?N \<le> 256" using N by simp
  have used: "length (rx_contents s) = (unat (rx_insert s) + 256 - ?R) mod 256"
    by (simp add: rx_contents_def ring_contents_length)
  have "unat (ucast count :: u16) \<le> unat (serial_read_available s)"
    using fit ok by (simp add: unat_read_available unat_ucast_8_16)
  then have enough: "\<not> serial_read_available s < ucast count"
    by (simp add: word_less_nat_alt)
  have "rx_remove s \<le> 256" using r by simp
  then have room: "unat (256 - rx_remove s) = 256 - ?R" by (simp add: unat_sub)
  have out: "take ?N (rx_contents s) = map (\<lambda>j. rx_buf s ! ((?R + j) mod 256)) [0 ..< ?N]"
    unfolding rx_contents_def using R fit used by (intro ring_contents_take) simp_all
  show ?thesis
  proof (cases "?N \<le> 256 - ?R")
    case True
    note le = True
    then have c1: "\<not> (256 - rx_remove s < ucast count)"
      by (simp add: word_less_nat_alt room unat_ucast_8_16)
    have "unat (ucast (ucast count :: u16) :: u8) = unat count"
      by (simp add: unat_ucast_16_8 unat_ucast_8_16 N)
    then have rt: "(ucast (ucast count :: u16) :: u8) = count" by (rule unat_eq_word)
    have "?R + unat (ucast count :: u16) < 2 ^ LENGTH(16)" using R N by (simp add: unat_ucast_8_16)
    then have sum: "unat (rx_remove s + ucast count) = ?R + ?N"
      by (simp add: unat_add_lem [THEN iffD1] unat_ucast_8_16)
    have m: "min ?N (256 - ?R) = ?N" using le by simp
    from ring_block [OF R len N' refl]
    have blk: "memcpy_from (rx_buf s) ?R ?N = map (\<lambda>j. rx_buf s ! ((?R + j) mod 256)) [0 ..< ?N]"
      unfolding m by (simp add: memcpy_from_def)
    let ?x = "rx_remove s + ucast count"
    have fin: "unat (if ?x \<ge> 256 then ?x - 256 else ?x) = (?R + ?N) mod 256"
    proof (cases "?R + ?N = 256")
      case True
      then have "unat ?x = unat (256 :: u16)" using sum by simp
      then have "?x = 256" by (rule unat_eq_word)
      then show ?thesis using True by simp
    next
      case False
      with le R have lt: "?R + ?N < 256" by arith
      then have "\<not> (256 \<le> ?x)" using sum by (simp add: word_le_nat_alt)
      then show ?thesis using lt sum by simp
    qed
    have "serial_read_buf count s =
            (True, take ?N (rx_contents s),
             cts_release (s\<lparr>rx_remove := (if ?x \<ge> 256 then ?x - 256 else ?x)\<rparr>))"
      using enough c1 rt blk out
      by (simp add: serial_read_buf_def RX_BUFF_MAX_def Let_def unat_ucast_8_16)
    with fin show ?thesis by blast
  next
    case False
    then have big: "256 - ?R < ?N" by simp
    then have c1: "256 - rx_remove s < ucast count"
      by (simp add: word_less_nat_alt room unat_ucast_8_16)
    have n1: "unat (ucast (256 - rx_remove s) :: u8) = 256 - ?R"
      using room big N by (simp add: unat_ucast_16_8)
    then have "ucast (256 - rx_remove s) \<le> count" using big by (simp add: word_le_nat_alt)
    then have c2: "unat (count - ucast (256 - rx_remove s)) = ?N - (256 - ?R)"
      using n1 by (simp add: unat_sub)
    then have pos: "0 < count - ucast (256 - rx_remove s)"
      using big by (simp add: word_less_nat_alt)
    have wrap: "rx_remove s + (256 - rx_remove s) = 256" by simp
    have m: "min ?N (256 - ?R) = 256 - ?R" using big by simp
    from ring_block [OF R len N' refl]
    have blk: "memcpy_from (rx_buf s) ?R (256 - ?R) @ memcpy_from (rx_buf s) 0 (?N - (256 - ?R))
               = map (\<lambda>j. rx_buf s ! ((?R + j) mod 256)) [0 ..< ?N]"
      unfolding m .
    have ge: "256 \<le> ?R + ?N" using big by arith
    have "?R + ?N < 2 * 256" using R N by arith
    then have "(?R + ?N) mod 256 = ?R + ?N - 256" using ge by (simp add: mod_wrap)
    also have "\<dots> = ?N - (256 - ?R)" using ge R by arith
    finally have "(?R + ?N) mod 256 = ?N - (256 - ?R)" .
    then have fin: "unat (ucast (count - ucast (256 - rx_remove s)) :: u16) = (?R + ?N) mod 256"
      using c2 by (simp add: unat_ucast_8_16)
    have "serial_read_buf count s =
            (True, take ?N (rx_contents s),
             cts_release (s\<lparr>rx_remove := ucast (count - ucast (256 - rx_remove s))\<rparr>))"
      using enough c1 pos blk out room c2
      by (simp add: serial_read_buf_def RX_BUFF_MAX_def Let_def wrap)
    with fin show ?thesis by blast
  qed
qed


text \<open>
  Claim C8 (\<open>read_block\<close> is all or nothing).  In a state with both rings in range:
  if fewer than \<open>n\<close> bytes wait in the RX ring, \<open>serial_read_buf\<close> answers false,
  stores nothing and leaves the state as it was; otherwise it answers true, hands out
  the \<open>n\<close> oldest bytes in order, and the ring holds the remaining ones, with the insert
  index and the array untouched.
\<close>

theorem C8_read_block_all_or_nothing:
  assumes "rings_ok s"
  shows "(length (rx_contents s) < unat n \<longrightarrow> serial_read_buf n s = (False, [], s))
       \<and> (unat n \<le> length (rx_contents s) \<longrightarrow>
            (\<exists>s'. serial_read_buf n s = (True, take (unat n) (rx_contents s), s')
                  \<and> rx_contents s' = drop (unat n) (rx_contents s)
                  \<and> rx_insert s' = rx_insert s \<and> rx_buf s' = rx_buf s \<and> rings_ok s'))"
proof (intro conjI impI)
  assume "length (rx_contents s) < unat n"
  with assms show "serial_read_buf n s = (False, [], s)" by (rule serial_read_buf_short)
next
  assume fit: "unat n \<le> length (rx_contents s)"
  from serial_read_buf_ok [OF assms fit] obtain r
    where r: "unat r = (unat (rx_remove s) + unat n) mod 256"
      and eq: "serial_read_buf n s =
                 (True, take (unat n) (rx_contents s), cts_release (s\<lparr>rx_remove := r\<rparr>))"
    by blast
  let ?s' = "cts_release (s\<lparr>rx_remove := r\<rparr>)"
  have R: "unat (rx_remove s) < 256" and I: "unat (rx_insert s) < 256"
    using assms by (simp_all add: rings_ok_def word_less_nat_alt)
  have "rx_contents ?s' = drop (unat n) (rx_contents s)"
    using fit ring_contents_drop [OF I R, of "unat n" "rx_buf s"]
    by (simp add: rx_contents_def r ring_contents_length)
  moreover have "unat r < 256" using r by simp
  then have "rings_ok ?s'" using assms by (simp add: rings_ok_def word_less_nat_alt cts_release_def)
  ultimately show "\<exists>s'. serial_read_buf n s = (True, take (unat n) (rx_contents s), s')
                  \<and> rx_contents s' = drop (unat n) (rx_contents s)
                  \<and> rx_insert s' = rx_insert s \<and> rx_buf s' = rx_buf s \<and> rings_ok s'"
    using eq by (intro exI [of _ ?s']) simp
qed


lemma two_queued_ok: "rings_ok two_queued"
  by (simp add: two_queued_def zero_state_def rings_ok_def)

lemma two_queued_contents: "rx_contents two_queued = [0x41, 0x42]"
  by (simp add: two_queued_def zero_state_def rx_contents_def ring_contents_def upt_rec)

text \<open>The claim at the state holding \<open>A B\<close>: one byte can be read, three cannot.\<close>

theorem C8_read_block_witness:
  "rings_ok two_queued
   \<and> unat (1 :: u8) \<le> length (rx_contents two_queued)
   \<and> (\<exists>s'. serial_read_buf 1 two_queued = (True, [0x41], s') \<and> rx_contents s' = [0x42])
   \<and> length (rx_contents two_queued) < unat (3 :: u8)
   \<and> serial_read_buf 3 two_queued = (False, [], two_queued)"
  using C8_read_block_all_or_nothing [OF two_queued_ok, of 1]
        C8_read_block_all_or_nothing [OF two_queued_ok, of 3]
  by (auto simp: two_queued_ok two_queued_contents)

section \<open>Initialisation\<close>

text \<open>
  Claim C9 (after \<open>init\<close> every flag is back at its initial value), as stated, fails:
  \<open>serial_init\<close> run in the middle of an escape sequence and of silence mode leaves the
  escape-pending flag, the flush signal, the credit counter, and the silence flag and
  countdown as they were.
\<close>

theorem C9_init_keeps_flags:
  "last_was_bang (serial_init 57 mid_escape)
   \<and> tx_buffered_data (serial_init 57 mid_escape)
   \<and> rts_count (serial_init 57 mid_escape) = 5
   \<and> uboot_silence_mode (serial_init 57 mid_escape)
   \<and> uboot_silence_counter (serial_init 57 mid_escape) = 1234"
  by (simp add: serial_init_def serial_device_set_speed_def mid_escape_def zero_state_def Let_def)

text \<open>
  Claim C9 as amended: \<open>serial_init\<close> resets the four indices, so both rings are empty,
  marks the transmitter idle and releases the ready-to-receive line where the board has
  one; the credit counter, the escape-pending flag, the flush signal, and the silence
  flag and countdown keep their values.
\<close>

theorem C9_init_resets_rings_only:
  "rx_insert (serial_init speed s) = 0 \<and> rx_remove (serial_init speed s) = 0
   \<and> tx_insert (serial_init speed s) = 0 \<and> tx_remove (serial_init speed s) = 0
   \<and> rx_contents (serial_init speed s) = [] \<and> tx_contents (serial_init speed s) = []
   \<and> tx_idle (serial_init speed s)
   \<and> serial_cts (serial_init speed s) = (if cfg_serial_cts s then False else serial_cts s)
   \<and> rts_count (serial_init speed s) = rts_count s
   \<and> last_was_bang (serial_init speed s) = last_was_bang s
   \<and> tx_buffered_data (serial_init speed s) = tx_buffered_data s
   \<and> uboot_silence_mode (serial_init speed s) = uboot_silence_mode s
   \<and> uboot_silence_counter (serial_init speed s) = uboot_silence_counter s"
  by (simp add: serial_init_def serial_device_set_speed_def Let_def rx_contents_def
      tx_contents_def ring_contents_def)

section \<open>Single-byte read\<close>

text \<open>
  Claim C10 (an empty RX ring reads as the byte 0).  With the ring empty,
  \<open>serial_read\<close> returns 0 and moves no index; a ring that holds one received zero byte
  returns the same value, and only \<open>serial_read_available\<close> tells the two apart.
\<close>

theorem C10_read_empty_returns_zero:
  assumes "BUF_EMPTY (rx_insert s) (rx_remove s)"
  shows "fst (serial_read s) = 0
       \<and> rx_insert (snd (serial_read s)) = rx_insert s
       \<and> rx_remove (snd (serial_read s)) = rx_remove s
       \<and> serial_read_available (rx_enqueue 0 zero_state) = 1
       \<and> fst (serial_read (rx_enqueue 0 zero_state)) = fst (serial_read s)"
  using assms
  by (simp add: serial_read_def BUF_EMPTY_def BUF_NOT_EMPTY_def cts_release_def rx_enqueue_def
      BUF_NOT_FULL_def BUF_NEXT_def RX_BUFF_MAX_def zero_state_def serial_read_available_def
      BUF_USED_def byte_at_def)

text \<open>The claim at the all-zero state.\<close>

theorem C10_read_empty_witness:
  "BUF_EMPTY (rx_insert zero_state) (rx_remove zero_state)
   \<and> fst (serial_read zero_state) = 0
   \<and> serial_read_available (rx_enqueue 0 zero_state) = 1
   \<and> fst (serial_read (rx_enqueue 0 zero_state)) = 0"
proof -
  have e: "BUF_EMPTY (rx_insert zero_state) (rx_remove zero_state)"
    by (simp add: BUF_EMPTY_def zero_state_def)
  from C10_read_empty_returns_zero [OF e] e show ?thesis by simp
qed

section \<open>Block write\<close>

lemma memcpy_into_length [simp]: "length (memcpy_into dst off src n) = length dst"
  by (simp add: memcpy_into_def)


lemma memcpy_into_zero [simp]: "off \<le> length dst \<Longrightarrow> memcpy_into dst off src 0 = dst"
  by (simp add: memcpy_into_def)



lemma frame_serial_restart [simp]:
  "tx_buf (serial_restart s) = tx_buf s" "tx_insert (serial_restart s) = tx_insert s"
  "tx_remove (serial_restart s) = tx_remove s"
  "serial_tx_overflow (serial_restart s) = serial_tx_overflow s"
  "wire_out (serial_restart s) = wire_out s"
  "rx_buf (serial_restart s) = rx_buf s" "rx_insert (serial_restart s) = rx_insert s"
  "rx_remove (serial_restart s) = rx_remove s"
  "last_was_bang (serial_restart s) = last_was_bang s"
  "tx_buffered_data (serial_restart s) = tx_buffered_data s"
  "uboot_silence_mode (serial_restart s) = uboot_silence_mode s"
  "at_mode_active (serial_restart s) = at_mode_active s"
  by (simp_all add: serial_restart_def)










lemma zero_state_ok: "rings_ok zero_state"
  by (simp add: zero_state_def rings_ok_def)




text \<open>
  On the space the function truncates to, see claim C4: in the state holding 509
  bytes, after the truncated write the insert index has run onto the remove index, the
  mark of an empty ring.
\<close>

lemma write_buf_wraps_onto_remove:
  "BUF_USED TX_BUFF_MAX (tx_insert nearly_full) (tx_remove nearly_full) = 509
   \<and> BUF_EMPTY (tx_insert (serial_write_buf [1, 2, 3, 4, 5] 5 nearly_full))
                (tx_remove (serial_write_buf [1, 2, 3, 4, 5] 5 nearly_full))"
  by (simp add: nearly_full_def zero_state_def serial_write_buf_def serial_write_space_def
      BUF_FREE_def BUF_USED_def BUF_EMPTY_def TX_BUFF_MAX_def Let_def)

section \<open>The interrupt handler: properties\<close>

subsection \<open>One byte in, one byte out\<close>

lemma BUF_NEXT_less: "i < sz \<Longrightarrow> BUF_NEXT sz i < sz"
proof -
  assume a: "i < sz"
  then have "0 < unat sz" by (simp add: word_less_nat_alt)
  then have "(unat i + 1) mod unat sz < unat sz" by simp
  then show ?thesis using a by (simp add: word_less_nat_alt unat_BUF_NEXT)
qed

lemma ring_push_word:
  assumes "length buf = unat sz" "ins < sz" "rem < sz" "BUF_NOT_FULL sz ins rem"
  shows "ring_contents (unat sz) (buf[unat ins := c]) (unat (BUF_NEXT sz ins)) (unat rem)
         = ring_contents (unat sz) buf (unat ins) (unat rem) @ [c]"
proof -
  have i: "unat ins < unat sz" and r: "unat rem < unat sz"
    using assms by (simp_all add: word_less_nat_alt)
  have e: "unat (BUF_NEXT sz ins) = (unat ins + 1) mod unat sz"
    using assms(2) by (rule unat_BUF_NEXT)
  have "unat (BUF_NEXT sz ins) \<noteq> unat rem"
    using assms(4) by (simp only: BUF_NOT_FULL_def word_unat_eq_iff not_False_eq_True)
  then have nf: "(unat ins + 1) mod unat sz \<noteq> unat rem" unfolding e .
  from ring_contents_push [OF i r assms(1) nf]
  show ?thesis unfolding e .
qed

lemma ring_pop_word:
  assumes "length buf = unat sz" "ins < sz" "rem < sz" "BUF_NOT_EMPTY ins rem"
  shows "ring_contents (unat sz) buf (unat ins) (unat rem)
         = byte_at buf (unat rem) # ring_contents (unat sz) buf (unat ins) (unat (BUF_NEXT sz rem))"
proof -
  have i: "unat ins < unat sz" and r: "unat rem < unat sz"
    using assms by (simp_all add: word_less_nat_alt)
  have ne: "unat ins \<noteq> unat rem"
    using assms(4) by (simp only: BUF_NOT_EMPTY_def word_unat_eq_iff not_False_eq_True)
  have b: "byte_at buf (unat rem) = buf ! unat rem" using r assms(1) by (simp add: byte_at_def)
  have e: "unat (BUF_NEXT sz rem) = (unat rem + 1) mod unat sz"
    using assms(3) by (rule unat_BUF_NEXT)
  from ring_contents_pop [OF i r ne, of buf]
  show ?thesis unfolding e b .
qed

lemma ring_pop_keeps_room:
  assumes "ins < sz" "rem < sz" "BUF_NOT_FULL sz ins rem" "BUF_NOT_EMPTY ins rem"
  shows "BUF_NOT_FULL sz ins (BUF_NEXT sz rem)"
proof -
  have i: "unat ins < unat sz" and r: "unat rem < unat sz"
    using assms by (simp_all add: word_less_nat_alt)
  have ne: "unat ins \<noteq> unat rem"
    using assms(4) by (simp only: BUF_NOT_EMPTY_def word_unat_eq_iff not_False_eq_True)
  have "(unat ins + 1) mod unat sz \<noteq> (unat rem + 1) mod unat sz"
    using i r ne by (auto simp: mod_wrap split: if_splits)
  then have "unat (BUF_NEXT sz ins) \<noteq> unat (BUF_NEXT sz rem)"
    unfolding unat_BUF_NEXT [OF assms(1)] unat_BUF_NEXT [OF assms(2)] .
  then show ?thesis by (auto simp: BUF_NOT_FULL_def)
qed

lemma uboot_detect_frame [simp]:
  "rx_buf (uboot_detect c s) = rx_buf s"
  "tx_buf (uboot_detect c s) = tx_buf s"
  "rx_insert (uboot_detect c s) = rx_insert s"
  "rx_remove (uboot_detect c s) = rx_remove s"
  "tx_insert (uboot_detect c s) = tx_insert s"
  "tx_remove (uboot_detect c s) = tx_remove s"
  "last_was_bang (uboot_detect c s) = last_was_bang s"
  "tx_buffered_data (uboot_detect c s) = tx_buffered_data s"
  "rts_count (uboot_detect c s) = rts_count s"
  "tx_idle (uboot_detect c s) = tx_idle s"
  "serial_rx_overflow (uboot_detect c s) = serial_rx_overflow s"
  "serial_tx_overflow (uboot_detect c s) = serial_tx_overflow s"
  "at_mode_active (uboot_detect c s) = at_mode_active s"
  "at_cmd_ready (uboot_detect c s) = at_cmd_ready s"
  "feature_rtscts (uboot_detect c s) = feature_rtscts s"
  "ri0 (uboot_detect c s) = ri0 s"
  "ti0 (uboot_detect c s) = ti0 s"
  "es0 (uboot_detect c s) = es0 s"
  "sbuf0 (uboot_detect c s) = sbuf0 s"
  "wire_out (uboot_detect c s) = wire_out s"
  "serial_cts (uboot_detect c s) = serial_cts s"
  "serial_rts (uboot_detect c s) = serial_rts s"
  "cfg_serial_cts (uboot_detect c s) = cfg_serial_cts s"
  "cfg_serial_rts (uboot_detect c s) = cfg_serial_rts s"
  "ext_calls (uboot_detect c s) = ext_calls s"
  by (simp_all add: uboot_detect_def Let_def)

lemma cts_assert_frame [simp]:
  "rx_buf (cts_assert s) = rx_buf s"
  "tx_buf (cts_assert s) = tx_buf s"
  "rx_insert (cts_assert s) = rx_insert s"
  "rx_remove (cts_assert s) = rx_remove s"
  "tx_insert (cts_assert s) = tx_insert s"
  "tx_remove (cts_assert s) = tx_remove s"
  "last_was_bang (cts_assert s) = last_was_bang s"
  "tx_buffered_data (cts_assert s) = tx_buffered_data s"
  "rts_count (cts_assert s) = rts_count s"
  "tx_idle (cts_assert s) = tx_idle s"
  "uboot_counter (cts_assert s) = uboot_counter s"
  "last_byte (cts_assert s) = last_byte s"
  "uboot_silence_mode (cts_assert s) = uboot_silence_mode s"
  "uboot_silence_counter (cts_assert s) = uboot_silence_counter s"
  "serial_rx_overflow (cts_assert s) = serial_rx_overflow s"
  "serial_tx_overflow (cts_assert s) = serial_tx_overflow s"
  "at_mode_active (cts_assert s) = at_mode_active s"
  "at_cmd_ready (cts_assert s) = at_cmd_ready s"
  "feature_rtscts (cts_assert s) = feature_rtscts s"
  "ri0 (cts_assert s) = ri0 s"
  "ti0 (cts_assert s) = ti0 s"
  "es0 (cts_assert s) = es0 s"
  "sbuf0 (cts_assert s) = sbuf0 s"
  "wire_out (cts_assert s) = wire_out s"
  "serial_rts (cts_assert s) = serial_rts s"
  "led_bootloader (cts_assert s) = led_bootloader s"
  "cfg_serial_cts (cts_assert s) = cfg_serial_cts s"
  "cfg_serial_rts (cts_assert s) = cfg_serial_rts s"
  "ext_calls (cts_assert s) = ext_calls s"
  by (simp_all add: cts_assert_def)

lemma tx_fetch_send_frame [simp]:
  "rx_buf (tx_fetch_send s) = rx_buf s"
  "tx_buf (tx_fetch_send s) = tx_buf s"
  "rx_insert (tx_fetch_send s) = rx_insert s"
  "rx_remove (tx_fetch_send s) = rx_remove s"
  "tx_insert (tx_fetch_send s) = tx_insert s"
  "last_was_bang (tx_fetch_send s) = last_was_bang s"
  "tx_buffered_data (tx_fetch_send s) = tx_buffered_data s"
  "rts_count (tx_fetch_send s) = rts_count s"
  "tx_idle (tx_fetch_send s) = tx_idle s"
  "uboot_counter (tx_fetch_send s) = uboot_counter s"
  "last_byte (tx_fetch_send s) = last_byte s"
  "uboot_silence_mode (tx_fetch_send s) = uboot_silence_mode s"
  "uboot_silence_counter (tx_fetch_send s) = uboot_silence_counter s"
  "serial_rx_overflow (tx_fetch_send s) = serial_rx_overflow s"
  "serial_tx_overflow (tx_fetch_send s) = serial_tx_overflow s"
  "at_mode_active (tx_fetch_send s) = at_mode_active s"
  "at_cmd_ready (tx_fetch_send s) = at_cmd_ready s"
  "feature_rtscts (tx_fetch_send s) = feature_rtscts s"
  "ri0 (tx_fetch_send s) = ri0 s"
  "ti0 (tx_fetch_send s) = ti0 s"
  "es0 (tx_fetch_send s) = es0 s"
  "sbuf0 (tx_fetch_send s) = sbuf0 s"
  "serial_cts (tx_fetch_send s) = serial_cts s"
  "serial_rts (tx_fetch_send s) = serial_rts s"
  "led_bootloader (tx_fetch_send s) = led_bootloader s"
  "cfg_serial_cts (tx_fetch_send s) = cfg_serial_cts s"
  "cfg_serial_rts (tx_fetch_send s) = cfg_serial_rts s"
  "ext_calls (tx_fetch_send s) = ext_calls s"
  by (simp_all add: tx_fetch_send_def)

lemma serial_interrupt_tx_frame [simp]:
  "rx_buf (serial_interrupt_tx s) = rx_buf s"
  "tx_buf (serial_interrupt_tx s) = tx_buf s"
  "rx_insert (serial_interrupt_tx s) = rx_insert s"
  "rx_remove (serial_interrupt_tx s) = rx_remove s"
  "tx_insert (serial_interrupt_tx s) = tx_insert s"
  "last_was_bang (serial_interrupt_tx s) = last_was_bang s"
  "tx_buffered_data (serial_interrupt_tx s) = tx_buffered_data s"
  "uboot_counter (serial_interrupt_tx s) = uboot_counter s"
  "last_byte (serial_interrupt_tx s) = last_byte s"
  "uboot_silence_mode (serial_interrupt_tx s) = uboot_silence_mode s"
  "uboot_silence_counter (serial_interrupt_tx s) = uboot_silence_counter s"
  "serial_rx_overflow (serial_interrupt_tx s) = serial_rx_overflow s"
  "serial_tx_overflow (serial_interrupt_tx s) = serial_tx_overflow s"
  "at_mode_active (serial_interrupt_tx s) = at_mode_active s"
  "at_cmd_ready (serial_interrupt_tx s) = at_cmd_ready s"
  "feature_rtscts (serial_interrupt_tx s) = feature_rtscts s"
  "ri0 (serial_interrupt_tx s) = ri0 s"
  "es0 (serial_interrupt_tx s) = es0 s"
  "sbuf0 (serial_interrupt_tx s) = sbuf0 s"
  "serial_cts (serial_interrupt_tx s) = serial_cts s"
  "serial_rts (serial_interrupt_tx s) = serial_rts s"
  "led_bootloader (serial_interrupt_tx s) = led_bootloader s"
  "cfg_serial_cts (serial_interrupt_tx s) = cfg_serial_cts s"
  "cfg_serial_rts (serial_interrupt_tx s) = cfg_serial_rts s"
  "ext_calls (serial_interrupt_tx s) = ext_calls s"
  by (simp_all add: serial_interrupt_tx_def Let_def)

lemma rx_enqueue_frame [simp]:
  "tx_buf (rx_enqueue c s) = tx_buf s"
  "rx_remove (rx_enqueue c s) = rx_remove s"
  "tx_insert (rx_enqueue c s) = tx_insert s"
  "tx_remove (rx_enqueue c s) = tx_remove s"
  "last_was_bang (rx_enqueue c s) = last_was_bang s"
  "tx_buffered_data (rx_enqueue c s) = tx_buffered_data s"
  "rts_count (rx_enqueue c s) = rts_count s"
  "tx_idle (rx_enqueue c s) = tx_idle s"
  "uboot_counter (rx_enqueue c s) = uboot_counter s"
  "last_byte (rx_enqueue c s) = last_byte s"
  "uboot_silence_mode (rx_enqueue c s) = uboot_silence_mode s"
  "uboot_silence_counter (rx_enqueue c s) = uboot_silence_counter s"
  "serial_tx_overflow (rx_enqueue c s) = serial_tx_overflow s"
  "at_mode_active (rx_enqueue c s) = at_mode_active s"
  "at_cmd_ready (rx_enqueue c s) = at_cmd_ready s"
  "feature_rtscts (rx_enqueue c s) = feature_rtscts s"
  "ri0 (rx_enqueue c s) = ri0 s"
  "ti0 (rx_enqueue c s) = ti0 s"
  "es0 (rx_enqueue c s) = es0 s"
  "sbuf0 (rx_enqueue c s) = sbuf0 s"
  "wire_out (rx_enqueue c s) = wire_out s"
  "serial_cts (rx_enqueue c s) = serial_cts s"
  "serial_rts (rx_enqueue c s) = serial_rts s"
  "led_bootloader (rx_enqueue c s) = led_bootloader s"
  "cfg_serial_cts (rx_enqueue c s) = cfg_serial_cts s"
  "cfg_serial_rts (rx_enqueue c s) = cfg_serial_rts s"
  "ext_calls (rx_enqueue c s) = ext_calls s"
  by (simp_all add: rx_enqueue_def)

lemma serial_write_raw_frame [simp]:
  "rx_buf (serial_write_raw c s) = rx_buf s"
  "rx_insert (serial_write_raw c s) = rx_insert s"
  "rx_remove (serial_write_raw c s) = rx_remove s"
  "tx_remove (serial_write_raw c s) = tx_remove s"
  "last_was_bang (serial_write_raw c s) = last_was_bang s"
  "tx_buffered_data (serial_write_raw c s) = tx_buffered_data s"
  "rts_count (serial_write_raw c s) = rts_count s"
  "uboot_counter (serial_write_raw c s) = uboot_counter s"
  "last_byte (serial_write_raw c s) = last_byte s"
  "uboot_silence_mode (serial_write_raw c s) = uboot_silence_mode s"
  "uboot_silence_counter (serial_write_raw c s) = uboot_silence_counter s"
  "serial_rx_overflow (serial_write_raw c s) = serial_rx_overflow s"
  "at_mode_active (serial_write_raw c s) = at_mode_active s"
  "at_cmd_ready (serial_write_raw c s) = at_cmd_ready s"
  "feature_rtscts (serial_write_raw c s) = feature_rtscts s"
  "ri0 (serial_write_raw c s) = ri0 s"
  "es0 (serial_write_raw c s) = es0 s"
  "sbuf0 (serial_write_raw c s) = sbuf0 s"
  "wire_out (serial_write_raw c s) = wire_out s"
  "serial_cts (serial_write_raw c s) = serial_cts s"
  "serial_rts (serial_write_raw c s) = serial_rts s"
  "led_bootloader (serial_write_raw c s) = led_bootloader s"
  "cfg_serial_cts (serial_write_raw c s) = cfg_serial_cts s"
  "cfg_serial_rts (serial_write_raw c s) = cfg_serial_rts s"
  "ext_calls (serial_write_raw c s) = ext_calls s"
  by (simp_all add: serial_write_raw_def serial_restart_def Let_def)

lemma putchar_r_frame [simp]:
  "rx_buf (putchar_r c s) = rx_buf s"
  "rx_insert (putchar_r c s) = rx_insert s"
  "rx_remove (putchar_r c s) = rx_remove s"
  "tx_remove (putchar_r c s) = tx_remove s"
  "last_was_bang (putchar_r c s) = last_was_bang s"
  "tx_buffered_data (putchar_r c s) = tx_buffered_data s"
  "rts_count (putchar_r c s) = rts_count s"
  "uboot_counter (putchar_r c s) = uboot_counter s"
  "last_byte (putchar_r c s) = last_byte s"
  "uboot_silence_mode (putchar_r c s) = uboot_silence_mode s"
  "uboot_silence_counter (putchar_r c s) = uboot_silence_counter s"
  "serial_rx_overflow (putchar_r c s) = serial_rx_overflow s"
  "at_mode_active (putchar_r c s) = at_mode_active s"
  "at_cmd_ready (putchar_r c s) = at_cmd_ready s"
  "feature_rtscts (putchar_r c s) = feature_rtscts s"
  "ri0 (putchar_r c s) = ri0 s"
  "es0 (putchar_r c s) = es0 s"
  "sbuf0 (putchar_r c s) = sbuf0 s"
  "wire_out (putchar_r c s) = wire_out s"
  "serial_cts (putchar_r c s) = serial_cts s"
  "serial_rts (putchar_r c s) = serial_rts s"
  "led_bootloader (putchar_r c s) = led_bootloader s"
  "cfg_serial_cts (putchar_r c s) = cfg_serial_cts s"
  "cfg_serial_rts (putchar_r c s) = cfg_serial_rts s"
  "ext_calls (putchar_r c s) = ext_calls s"
  by (simp_all add: putchar_r_def)



text \<open>Steps of the handler on rings in range.\<close>

lemma rx_enqueue_room:
  assumes "rings_ok s" "BUF_NOT_FULL RX_BUFF_MAX (rx_insert s) (rx_remove s)"
  shows "rx_contents (rx_enqueue c s) = rx_contents s @ [c]" and "rings_ok (rx_enqueue c s)"
proof -
  have len: "length (rx_buf s) = unat (256 :: u16)" and i: "rx_insert s < 256" and r: "rx_remove s < 256"
    using assms(1) by (simp_all add: rings_ok_def)
  from ring_push_word [OF len i r assms(2) [unfolded RX_BUFF_MAX_def]]
  show "rx_contents (rx_enqueue c s) = rx_contents s @ [c]"
    using assms(2) by (simp add: rx_contents_def rx_enqueue_def RX_BUFF_MAX_def)
  show "rings_ok (rx_enqueue c s)"
    using assms BUF_NEXT_less [OF i] by (simp add: rings_ok_def rx_enqueue_def RX_BUFF_MAX_def)
qed

lemma rx_enqueue_full:
  assumes "\<not> BUF_NOT_FULL RX_BUFF_MAX (rx_insert s) (rx_remove s)"
  shows "rx_buf (rx_enqueue c s) = rx_buf s" and "rx_insert (rx_enqueue c s) = rx_insert s"
    and "serial_rx_overflow (rx_enqueue c s)
         = (if serial_rx_overflow s \<noteq> 0xFFFF then serial_rx_overflow s + 1 else serial_rx_overflow s)"
  using assms by (simp_all add: rx_enqueue_def)

lemma serial_write_raw_room:
  assumes "rings_ok s" "BUF_NOT_FULL TX_BUFF_MAX (tx_insert s) (tx_remove s)"
  shows "outbound (serial_write_raw c s) = outbound s @ [c]" and "rings_ok (serial_write_raw c s)"
proof -
  have len: "length (tx_buf s) = unat (512 :: u16)" and i: "tx_insert s < 512" and r: "tx_remove s < 512"
    using assms(1) by (simp_all add: rings_ok_def)
  have f: "tx_buf (serial_write_raw c s) = (tx_buf s)[unat (tx_insert s) := c]"
    "tx_insert (serial_write_raw c s) = BUF_NEXT 512 (tx_insert s)"
    using assms(2) by (simp_all add: serial_write_raw_def TX_BUFF_MAX_def Let_def)
  from ring_push_word [OF len i r assms(2) [unfolded TX_BUFF_MAX_def]]
  show "outbound (serial_write_raw c s) = outbound s @ [c]"
    by (simp add: outbound_def tx_contents_def f)
  show "rings_ok (serial_write_raw c s)"
    using assms(1) BUF_NEXT_less [OF i] by (simp add: rings_ok_def f)
qed

lemma serial_interrupt_tx_stream:
  assumes "rings_ok s"
  shows "outbound (serial_interrupt_tx s) = outbound s" and "rings_ok (serial_interrupt_tx s)"
    and "BUF_NOT_FULL TX_BUFF_MAX (tx_insert s) (tx_remove s)
         \<Longrightarrow> BUF_NOT_FULL TX_BUFF_MAX (tx_insert (serial_interrupt_tx s)) (tx_remove (serial_interrupt_tx s))"
proof -
  have len: "length (tx_buf s) = unat (512 :: u16)" and i: "tx_insert s < 512" and r: "tx_remove s < 512"
    using assms(1) by (simp_all add: rings_ok_def)
  have cases: "(wire_out (serial_interrupt_tx s) = wire_out s \<and> tx_remove (serial_interrupt_tx s) = tx_remove s)
     \<or> (BUF_NOT_EMPTY (tx_insert s) (tx_remove s)
         \<and> wire_out (serial_interrupt_tx s) = wire_out s @ [byte_at (tx_buf s) (unat (tx_remove s))]
         \<and> tx_remove (serial_interrupt_tx s) = BUF_NEXT 512 (tx_remove s))"
    by (simp add: serial_interrupt_tx_def tx_fetch_send_def TX_BUFF_MAX_def Let_def)
  show "outbound (serial_interrupt_tx s) = outbound s"
    using cases ring_pop_word [OF len i r] by (auto simp: outbound_def tx_contents_def)
  show "rings_ok (serial_interrupt_tx s)"
    using cases assms BUF_NEXT_less [OF r] by (auto simp: rings_ok_def)
  show "BUF_NOT_FULL TX_BUFF_MAX (tx_insert (serial_interrupt_tx s)) (tx_remove (serial_interrupt_tx s))"
    if "BUF_NOT_FULL TX_BUFF_MAX (tx_insert s) (tx_remove s)"
    using cases that ring_pop_keeps_room [OF i r] by (auto simp: TX_BUFF_MAX_def)
qed


lemma cts_assert_obs [simp]:
  "rings_ok (cts_assert s) = rings_ok s" "outbound (cts_assert s) = outbound s"
  "rx_contents (cts_assert s) = rx_contents s"
  by (simp_all add: rings_ok_def outbound_def tx_contents_def rx_contents_def)

lemma serial_interrupt_tx_rx [simp]: "rx_contents (serial_interrupt_tx s) = rx_contents s"
  by (simp add: rx_contents_def)

text \<open>
  Outside AT mode the handler runs the escape chain on the state left by the banner
  detector and the \<open>+++\<close> detector, and, when the chain returns, the ready-to-receive
  check and the transmit half.
\<close>

lemma receive_via:
  assumes "\<not> at_mode_active s"
    and "escape_process c
           ((uboot_detect c (s\<lparr>sbuf0 := c, ri0 := False\<rparr>))
              \<lparr>ext_calls := ext_calls s @ [At_plus_detector c]\<rparr>) = Returned e"
  shows "receive c s = Returned (serial_interrupt_tx (cts_assert e))"
  using assms by (simp add: receive_def serial_interrupt_def Let_def)

lemma front_obs [simp]:
  "rings_ok ((uboot_detect c (s\<lparr>sbuf0 := c, ri0 := False\<rparr>))\<lparr>ext_calls := x\<rparr>) = rings_ok s"
  "outbound ((uboot_detect c (s\<lparr>sbuf0 := c, ri0 := False\<rparr>))\<lparr>ext_calls := x\<rparr>) = outbound s"
  "rx_contents ((uboot_detect c (s\<lparr>sbuf0 := c, ri0 := False\<rparr>))\<lparr>ext_calls := x\<rparr>) = rx_contents s"
  by (simp_all add: rings_ok_def outbound_def tx_contents_def rx_contents_def)

lemma escape_bang:
  "escape_process 0x21 s =
     Returned ((if uboot_silence_mode s
                then s\<lparr>uboot_silence_mode := False, uboot_silence_counter := 0, led_bootloader := False\<rparr>
                else s)
               \<lparr>tx_buffered_data := (last_was_bang s \<or> tx_buffered_data s),
                last_was_bang := \<not> last_was_bang s\<rparr>)"
  by (simp add: escape_process_def Let_def)

lemma escape_dot:
  "last_was_bang s \<Longrightarrow> escape_process 0x2E s = Returned (rx_enqueue 0x21 (s\<lparr>last_was_bang := False\<rparr>))"
  by (simp add: escape_process_def)

lemma escape_unknown:
  "last_was_bang s \<Longrightarrow> no_command c
   \<Longrightarrow> escape_process c s = Returned (putchar_r 0x45 (s\<lparr>last_was_bang := False\<rparr>))"
  by (simp add: escape_process_def no_command_def)

lemma escape_data:
  "\<not> last_was_bang s \<Longrightarrow> c \<noteq> 0x21 \<Longrightarrow> escape_process c s = Returned (rx_enqueue c s)"
  by (simp add: escape_process_def)


lemma tail_stream:
  assumes "rings_ok e"
  shows "rings_ok (serial_interrupt_tx (cts_assert e))"
    and "outbound (serial_interrupt_tx (cts_assert e)) = outbound e"
    and "BUF_NOT_FULL TX_BUFF_MAX (tx_insert e) (tx_remove e)
         \<Longrightarrow> BUF_NOT_FULL TX_BUFF_MAX (tx_insert (serial_interrupt_tx (cts_assert e)))
               (tx_remove (serial_interrupt_tx (cts_assert e)))"
proof -
  have ok: "rings_ok (cts_assert e)" using assms by simp
  note s = serial_interrupt_tx_stream [OF ok]
  show "rings_ok (serial_interrupt_tx (cts_assert e))" by (rule s(2))
  show "outbound (serial_interrupt_tx (cts_assert e)) = outbound e" using s(1) by simp
  show "BUF_NOT_FULL TX_BUFF_MAX (tx_insert (serial_interrupt_tx (cts_assert e)))
               (tx_remove (serial_interrupt_tx (cts_assert e)))"
    if "BUF_NOT_FULL TX_BUFF_MAX (tx_insert e) (tx_remove e)"
    using s(3) that by simp
qed

lemma receive_bang:
  assumes "\<not> at_mode_active s"
  shows "\<exists>s'. receive 0x21 s = Returned s'
           \<and> last_was_bang s' = (\<not> last_was_bang s)
           \<and> tx_buffered_data s' = (last_was_bang s \<or> tx_buffered_data s)
           \<and> \<not> at_mode_active s' \<and> \<not> uboot_silence_mode s'
           \<and> rx_buf s' = rx_buf s \<and> rx_insert s' = rx_insert s \<and> rx_remove s' = rx_remove s
           \<and> rx_contents s' = rx_contents s
           \<and> serial_rx_overflow s' = serial_rx_overflow s
           \<and> serial_tx_overflow s' = serial_tx_overflow s
           \<and> (rings_ok s \<longrightarrow> rings_ok s' \<and> outbound s' = outbound s
                \<and> (BUF_NOT_FULL TX_BUFF_MAX (tx_insert s) (tx_remove s)
                     \<longrightarrow> BUF_NOT_FULL TX_BUFF_MAX (tx_insert s') (tx_remove s')))"
proof -
  let ?P = "(uboot_detect 0x21 (s\<lparr>sbuf0 := 0x21, ri0 := False\<rparr>))
              \<lparr>ext_calls := ext_calls s @ [At_plus_detector 0x21]\<rparr>"
  let ?e = "(if uboot_silence_mode ?P
             then ?P\<lparr>uboot_silence_mode := False, uboot_silence_counter := 0, led_bootloader := False\<rparr>
             else ?P)
            \<lparr>tx_buffered_data := (last_was_bang ?P \<or> tx_buffered_data ?P),
             last_was_bang := \<not> last_was_bang ?P\<rparr>"
  let ?s' = "serial_interrupt_tx (cts_assert ?e)"
  have e: "rings_ok ?e = rings_ok s" "outbound ?e = outbound s" "rx_contents ?e = rx_contents s"
    "tx_insert ?e = tx_insert s" "tx_remove ?e = tx_remove s"
    "rx_buf ?e = rx_buf s" "rx_insert ?e = rx_insert s" "rx_remove ?e = rx_remove s"
    "last_was_bang ?e = (\<not> last_was_bang s)"
    "tx_buffered_data ?e = (last_was_bang s \<or> tx_buffered_data s)"
    "at_mode_active ?e = at_mode_active s" "uboot_silence_mode ?e = False"
    "serial_rx_overflow ?e = serial_rx_overflow s" "serial_tx_overflow ?e = serial_tx_overflow s"
    by (simp_all add: rings_ok_def outbound_def tx_contents_def rx_contents_def)
  have r: "receive 0x21 s = Returned ?s'" using assms escape_bang by (rule receive_via)
  have t: "rings_ok ?s' \<and> outbound ?s' = outbound s
           \<and> (BUF_NOT_FULL TX_BUFF_MAX (tx_insert s) (tx_remove s)
                \<longrightarrow> BUF_NOT_FULL TX_BUFF_MAX (tx_insert ?s') (tx_remove ?s'))"
    if "rings_ok s"
  proof -
    have ok: "rings_ok ?e" using that by (simp only: e)
    show ?thesis using tail_stream [OF ok] by (simp only: e) blast
  qed
  have f: "last_was_bang ?s' = (\<not> last_was_bang s)"
    "tx_buffered_data ?s' = (last_was_bang s \<or> tx_buffered_data s)"
    "at_mode_active ?s' = at_mode_active s" "uboot_silence_mode ?s' = False"
    "rx_buf ?s' = rx_buf s" "rx_insert ?s' = rx_insert s" "rx_remove ?s' = rx_remove s"
    "rx_contents ?s' = rx_contents s"
    "serial_rx_overflow ?s' = serial_rx_overflow s" "serial_tx_overflow ?s' = serial_tx_overflow s"
    by (simp_all only: serial_interrupt_tx_frame cts_assert_frame serial_interrupt_tx_rx cts_assert_obs e)
  show ?thesis
    apply (rule exI [of _ ?s'])
    apply (simp only: r f)
    using assms t apply simp
    done
qed


lemma rx_enqueue_ok: "rings_ok s \<Longrightarrow> rings_ok (rx_enqueue c s)"
proof (cases "BUF_NOT_FULL RX_BUFF_MAX (rx_insert s) (rx_remove s)")
  case True
  assume "rings_ok s" then show ?thesis using True by (rule rx_enqueue_room)
next
  case False
  assume "rings_ok s"
  then show ?thesis using False
    by (simp add: rings_ok_def rx_enqueue_full rx_enqueue_def)
qed

lemma rx_enqueue_outbound [simp]: "outbound (rx_enqueue c s) = outbound s"
  by (simp add: outbound_def tx_contents_def)

lemma serial_write_raw_rx [simp]: "rx_contents (serial_write_raw c s) = rx_contents s"
  by (simp add: rx_contents_def)

lemma receive_dot:
  assumes mode: "\<not> at_mode_active s" and bang: "last_was_bang s" and ok: "rings_ok s"
  shows "\<exists>s'. receive 0x2E s = Returned s'
           \<and> \<not> last_was_bang s' \<and> tx_buffered_data s' = tx_buffered_data s
           \<and> outbound s' = outbound s
           \<and> (if BUF_NOT_FULL RX_BUFF_MAX (rx_insert s) (rx_remove s)
               then rx_contents s' = rx_contents s @ [0x21]
                    \<and> serial_rx_overflow s' = serial_rx_overflow s
               else rx_contents s' = rx_contents s
                    \<and> serial_rx_overflow s'
                        = (if serial_rx_overflow s \<noteq> 0xFFFF then serial_rx_overflow s + 1
                           else serial_rx_overflow s))"
proof -
  let ?Q = "(uboot_detect 0x2E (s\<lparr>sbuf0 := 0x2E, ri0 := False\<rparr>))
              \<lparr>ext_calls := ext_calls s @ [At_plus_detector 0x2E], last_was_bang := False\<rparr>"
  let ?e = "rx_enqueue 0x21 ?Q"
  let ?s' = "serial_interrupt_tx (cts_assert ?e)"
  have q: "rings_ok ?Q" "outbound ?Q = outbound s" "rx_contents ?Q = rx_contents s"
    "rx_insert ?Q = rx_insert s" "rx_remove ?Q = rx_remove s"
    "serial_rx_overflow ?Q = serial_rx_overflow s"
    using ok by (simp_all add: rings_ok_def outbound_def tx_contents_def rx_contents_def)
  have r: "receive 0x2E s = Returned ?s'"
    using mode by (rule receive_via) (simp add: escape_dot bang)
  have eok: "rings_ok ?e" using q(1) by (rule rx_enqueue_ok)
  have out: "outbound ?s' = outbound s" using tail_stream(2) [OF eok] q(2) by simp
  have f: "last_was_bang ?s' = False" "tx_buffered_data ?s' = tx_buffered_data s"
    "rx_contents ?s' = rx_contents ?e" "serial_rx_overflow ?s' = serial_rx_overflow ?e"
    by simp_all
  have rx: "rx_contents ?e = rx_contents s @ [0x21] \<and> serial_rx_overflow ?e = serial_rx_overflow s"
    if "BUF_NOT_FULL RX_BUFF_MAX (rx_insert s) (rx_remove s)"
    using that rx_enqueue_room(1) [where c = "0x21", OF q(1)] q
    by (simp add: rx_enqueue_def)
  have full: "rx_contents ?e = rx_contents s
       \<and> serial_rx_overflow ?e
            = (if serial_rx_overflow s \<noteq> 0xFFFF then serial_rx_overflow s + 1 else serial_rx_overflow s)"
    if "\<not> BUF_NOT_FULL RX_BUFF_MAX (rx_insert s) (rx_remove s)"
    using that q(3) by (simp add: rx_enqueue_def rx_contents_def)
  show ?thesis
    apply (rule exI [of _ ?s'])
    apply (simp only: r f out)
    using rx full apply simp
    done
qed

lemma receive_unknown:
  assumes mode: "\<not> at_mode_active s" and bang: "last_was_bang s" and ok: "rings_ok s"
    and c: "no_command c" and room: "BUF_NOT_FULL TX_BUFF_MAX (tx_insert s) (tx_remove s)"
  shows "\<exists>s'. receive c s = Returned s'
           \<and> \<not> last_was_bang s' \<and> tx_buffered_data s' = tx_buffered_data s
           \<and> rx_contents s' = rx_contents s \<and> serial_rx_overflow s' = serial_rx_overflow s
           \<and> outbound s' = outbound s @ [0x45]"
proof -
  let ?Q = "(uboot_detect c (s\<lparr>sbuf0 := c, ri0 := False\<rparr>))
              \<lparr>ext_calls := ext_calls s @ [At_plus_detector c], last_was_bang := False\<rparr>"
  let ?e = "serial_write_raw 0x45 ?Q"
  let ?s' = "serial_interrupt_tx (cts_assert ?e)"
  have q: "rings_ok ?Q" "outbound ?Q = outbound s" "rx_contents ?Q = rx_contents s"
    "BUF_NOT_FULL TX_BUFF_MAX (tx_insert ?Q) (tx_remove ?Q)"
    using ok room by (simp_all add: rings_ok_def outbound_def tx_contents_def rx_contents_def)
  have "escape_process c ((uboot_detect c (s\<lparr>sbuf0 := c, ri0 := False\<rparr>))
              \<lparr>ext_calls := ext_calls s @ [At_plus_detector c]\<rparr>) = Returned ?e"
    using bang c by (simp add: escape_unknown putchar_r_def)
  with mode have r: "receive c s = Returned ?s'" by (rule receive_via)
  note w = serial_write_raw_room [where c = "0x45", OF q(1) q(4)]
  have out: "outbound ?s' = outbound s @ [0x45]"
    using tail_stream(2) [OF w(2)] w(1) q(2) by simp
  have f: "last_was_bang ?s' = False" "tx_buffered_data ?s' = tx_buffered_data s"
    "rx_contents ?s' = rx_contents s" "serial_rx_overflow ?s' = serial_rx_overflow s"
    using q(3) by simp_all
  show ?thesis
    apply (rule exI [of _ ?s'])
    apply (simp only: r f out)
    apply simp
    done
qed


subsection \<open>The escape protocol\<close>

text \<open>
  Claim C5 (the three escape sequences), as stated, fails where a ring is full and in
  AT command mode.  With 255 bytes waiting in the RX ring, \<open>!.\<close> queues nothing and
  counts an RX overflow instead; with the TX ring full, \<open>!\<close> followed by the unassigned
  letter \<open>Q\<close> emits nothing and counts a TX overflow; in both runs the escape-pending flag
  ends clear.  In AT command mode the first \<open>!\<close> of \<open>!!\<close> already goes to the AT parser,
  and the flush signal stays clear.
\<close>

theorem C5_escape_needs_room:
  "\<not> last_was_bang rx_full
   \<and> receive_all [0x21, 0x2E] rx_full
       = Returned (rx_full\<lparr>last_byte := 0x2E, serial_rx_overflow := 1, sbuf0 := 0x2E,
                    serial_cts := True,
                    ext_calls := [At_plus_detector 0x21, At_plus_detector 0x2E]\<rparr>)
   \<and> \<not> last_was_bang tx_full
   \<and> receive_all [0x21, 0x51] tx_full
       = Returned (tx_full\<lparr>last_byte := 0x51, serial_tx_overflow := 1, sbuf0 := 0x51,
                    ext_calls := [At_plus_detector 0x21, At_plus_detector 0x51]\<rparr>)
   \<and> \<not> last_was_bang at_mode
   \<and> receive_all [0x21, 0x21] at_mode
       = At_input 0x21 (at_mode\<lparr>last_byte := 0x21, sbuf0 := 0x21\<rparr>)
   \<and> \<not> tx_buffered_data (at_mode\<lparr>last_byte := 0x21, sbuf0 := 0x21\<rparr>)"
  by (simp add: rx_full_def tx_full_def at_mode_def zero_state_def receive_def serial_interrupt_def
      uboot_detect_def escape_process_def rx_enqueue_def putchar_r_def serial_write_raw_def
      cts_assert_def serial_interrupt_tx_def BUF_NOT_FULL_def BUF_NEXT_def BUF_FREE_def
      RX_BUFF_MAX_def TX_BUFF_MAX_def SERIAL_CTS_THRESHOLD_LOW_def Let_def)

text \<open>
  Claim C5 as amended.  Outside AT command mode, from a state with the escape-pending
  flag clear and both rings in range: \<open>!!\<close> queues nothing, sends nothing, leaves the
  flush signal as it was after the first byte and sets it with the second; \<open>!.\<close>
  queues exactly one \<open>!\<close>, dispatches no command and sends nothing, provided the RX ring
  is not full; \<open>!\<close> followed by a byte that matches no test of the chain queues nothing
  and appends exactly one \<open>E\<close> to the outbound stream, provided the TX ring is not full.
  In all three cases the handler returns with the escape-pending flag clear.
\<close>

theorem C5_escape_sequences:
  assumes ok: "rings_ok s" and idle: "\<not> last_was_bang s" and mode: "\<not> at_mode_active s"
  shows "(\<exists>s1 s2. receive 0x21 s = Returned s1 \<and> receive 0x21 s1 = Returned s2
            \<and> tx_buffered_data s1 = tx_buffered_data s \<and> tx_buffered_data s2
            \<and> rx_contents s2 = rx_contents s \<and> outbound s2 = outbound s
            \<and> \<not> last_was_bang s2)
       \<and> (BUF_NOT_FULL RX_BUFF_MAX (rx_insert s) (rx_remove s) \<longrightarrow>
            (\<exists>s1 s2. receive 0x21 s = Returned s1 \<and> receive 0x2E s1 = Returned s2
               \<and> rx_contents s2 = rx_contents s @ [0x21] \<and> outbound s2 = outbound s
               \<and> tx_buffered_data s2 = tx_buffered_data s \<and> \<not> last_was_bang s2))
       \<and> (no_command c \<and> BUF_NOT_FULL TX_BUFF_MAX (tx_insert s) (tx_remove s) \<longrightarrow>
            (\<exists>s1 s2. receive 0x21 s = Returned s1 \<and> receive c s1 = Returned s2
               \<and> rx_contents s2 = rx_contents s \<and> outbound s2 = outbound s @ [0x45]
               \<and> tx_buffered_data s2 = tx_buffered_data s \<and> \<not> last_was_bang s2))"
proof -
  from receive_bang [OF mode] obtain s1 where
    r1: "receive 0x21 s = Returned s1" and b1: "last_was_bang s1" and m1: "\<not> at_mode_active s1"
    and f1: "tx_buffered_data s1 = tx_buffered_data s" and rx1: "rx_contents s1 = rx_contents s"
    and i1: "rx_insert s1 = rx_insert s" "rx_remove s1 = rx_remove s"
    and ok1: "rings_ok s1" and o1: "outbound s1 = outbound s"
    and room1: "BUF_NOT_FULL TX_BUFF_MAX (tx_insert s) (tx_remove s)
                \<Longrightarrow> BUF_NOT_FULL TX_BUFF_MAX (tx_insert s1) (tx_remove s1)"
    using ok idle by auto
  have p1: "\<exists>s1 s2. receive 0x21 s = Returned s1 \<and> receive 0x21 s1 = Returned s2
            \<and> tx_buffered_data s1 = tx_buffered_data s \<and> tx_buffered_data s2
            \<and> rx_contents s2 = rx_contents s \<and> outbound s2 = outbound s
            \<and> \<not> last_was_bang s2"
  proof -
    from receive_bang [OF m1] obtain s2 where
      "receive 0x21 s1 = Returned s2" "tx_buffered_data s2" "rx_contents s2 = rx_contents s1"
      "outbound s2 = outbound s1" "\<not> last_was_bang s2"
      using ok1 b1 by auto
    then show ?thesis using r1 f1 rx1 o1 by (intro exI [of _ s1] exI [of _ s2]) simp
  qed
  have p2: "\<exists>s1 s2. receive 0x21 s = Returned s1 \<and> receive 0x2E s1 = Returned s2
               \<and> rx_contents s2 = rx_contents s @ [0x21] \<and> outbound s2 = outbound s
               \<and> tx_buffered_data s2 = tx_buffered_data s \<and> \<not> last_was_bang s2"
    if nf: "BUF_NOT_FULL RX_BUFF_MAX (rx_insert s) (rx_remove s)"
  proof -
    have nf1: "BUF_NOT_FULL RX_BUFF_MAX (rx_insert s1) (rx_remove s1)" using nf by (simp only: i1)
    from receive_dot [OF m1 b1 ok1] obtain s2 where
      "receive 0x2E s1 = Returned s2" "\<not> last_was_bang s2"
      "tx_buffered_data s2 = tx_buffered_data s1" "outbound s2 = outbound s1"
      "rx_contents s2 = rx_contents s1 @ [0x21]"
      using nf1 by auto
    then show ?thesis using r1 f1 rx1 o1 by (intro exI [of _ s1] exI [of _ s2]) simp
  qed
  have p3: "\<exists>s1 s2. receive 0x21 s = Returned s1 \<and> receive c s1 = Returned s2
               \<and> rx_contents s2 = rx_contents s \<and> outbound s2 = outbound s @ [0x45]
               \<and> tx_buffered_data s2 = tx_buffered_data s \<and> \<not> last_was_bang s2"
    if c: "no_command c" and nf: "BUF_NOT_FULL TX_BUFF_MAX (tx_insert s) (tx_remove s)"
  proof -
    from receive_unknown [OF m1 b1 ok1 c room1 [OF nf]] obtain s2 where
      "receive c s1 = Returned s2" "\<not> last_was_bang s2"
      "tx_buffered_data s2 = tx_buffered_data s1" "rx_contents s2 = rx_contents s1"
      "outbound s2 = outbound s1 @ [0x45]"
      by auto
    then show ?thesis using r1 f1 rx1 o1 by (intro exI [of _ s1] exI [of _ s2]) simp
  qed
  show ?thesis using p1 p2 p3 by (intro conjI impI) (simp_all only:)
qed


lemma zero_state_empty:
  "rx_contents zero_state = []" "outbound zero_state = []"
  "\<not> last_was_bang zero_state" "\<not> at_mode_active zero_state"
  "\<not> tx_buffered_data zero_state"
  "BUF_NOT_FULL RX_BUFF_MAX (rx_insert zero_state) (rx_remove zero_state)"
  "BUF_NOT_FULL TX_BUFF_MAX (tx_insert zero_state) (tx_remove zero_state)"
  by (simp_all add: zero_state_def rx_contents_def outbound_def tx_contents_def
      ring_contents_def BUF_NOT_FULL_def BUF_NEXT_def RX_BUFF_MAX_def TX_BUFF_MAX_def)

text \<open>The amended claim at the all-zero state, with \<open>Q\<close> as the unassigned byte.\<close>

theorem C5_escape_sequences_witness:
  "rings_ok zero_state \<and> \<not> last_was_bang zero_state \<and> \<not> at_mode_active zero_state
   \<and> BUF_NOT_FULL RX_BUFF_MAX (rx_insert zero_state) (rx_remove zero_state)
   \<and> no_command 0x51
   \<and> BUF_NOT_FULL TX_BUFF_MAX (tx_insert zero_state) (tx_remove zero_state)
   \<and> (\<exists>s1 s2. receive 0x21 zero_state = Returned s1 \<and> receive 0x21 s1 = Returned s2
          \<and> tx_buffered_data s2 \<and> rx_contents s2 = [] \<and> \<not> last_was_bang s2)
   \<and> (\<exists>s1 s2. receive 0x21 zero_state = Returned s1 \<and> receive 0x2E s1 = Returned s2
          \<and> rx_contents s2 = [0x21] \<and> outbound s2 = [] \<and> \<not> last_was_bang s2)
   \<and> (\<exists>s1 s2. receive 0x21 zero_state = Returned s1 \<and> receive 0x51 s1 = Returned s2
          \<and> rx_contents s2 = [] \<and> outbound s2 = [0x45] \<and> \<not> last_was_bang s2)"
proof -
  have c: "no_command 0x51" by (simp add: no_command_def)
  note z = zero_state_empty
  from C5_escape_sequences [OF zero_state_ok z(3) z(4), of "0x51"]
  have "(\<exists>s1 s2. receive 0x21 zero_state = Returned s1 \<and> receive 0x21 s1 = Returned s2
          \<and> tx_buffered_data s2 \<and> rx_contents s2 = [] \<and> \<not> last_was_bang s2)
   \<and> (\<exists>s1 s2. receive 0x21 zero_state = Returned s1 \<and> receive 0x2E s1 = Returned s2
          \<and> rx_contents s2 = [0x21] \<and> outbound s2 = [] \<and> \<not> last_was_bang s2)
   \<and> (\<exists>s1 s2. receive 0x21 zero_state = Returned s1 \<and> receive 0x51 s1 = Returned s2
          \<and> rx_contents s2 = [] \<and> outbound s2 = [0x45] \<and> \<not> last_was_bang s2)"
    using c z by (simp only: simp_thms append_Nil) blast
  then show ?thesis using zero_state_ok c z by simp
qed

subsection \<open>Silence mode\<close>

text \<open>
  Claim C7 (in silence mode every outbound write, single-byte and block alike, enqueues
  nothing).  The code does not give it for the block write: in silence mode the
  single-byte \<open>serial_write\<close> tests \<open>uboot_silence_mode\<close> and refuses, but
  \<open>serial_write_buf\<close> never looks at the flag, and from an empty TX ring it queues its
  block.
\<close>

theorem C7_block_write_ignores_silence:
  "uboot_silence_mode silent
   \<and> serial_write 0x41 silent = (False, silent)
   \<and> tx_contents silent = []
   \<and> tx_contents (serial_write_buf [0x41] 1 silent) = [0x41]"
  by (simp add: silent_def zero_state_def serial_write_def serial_write_buf_def
      serial_write_space_def BUF_FREE_def TX_BUFF_MAX_def memcpy_into_def tx_contents_def
      ring_contents_def Let_def upt_rec)

text \<open>
  The other parts of the claim, on the code.  The banner detector runs at the head of
  the receive path in every mode; outside AT command mode a run of bytes that it counts
  turns silence mode on once the count reaches 80, and nothing in the run turns it off
  again; the single-byte write refuses while the flag is set; and the \<open>!\<close> test of the
  escape chain clears the flag.  In AT command mode the handler does not run the escape
  chain, so a \<open>!\<close> is input to the AT parser there and leaves the flag alone.
\<close>

lemma receive_in_at_mode:
  "at_mode_active s \<Longrightarrow>
   receive c s =
     (if at_cmd_ready s
      then Returned (serial_interrupt_tx (uboot_detect c (s\<lparr>sbuf0 := c, ri0 := False\<rparr>)))
      else At_input c (uboot_detect c (s\<lparr>sbuf0 := c, ri0 := False\<rparr>)))"
  by (simp add: receive_def serial_interrupt_def Let_def)

lemma bang_in_at_mode:
  "uboot_silence_mode at_silent
   \<and> receive 0x21 at_silent = Returned (at_silent\<lparr>last_byte := 0x21, sbuf0 := 0x21\<rparr>)"
  by (simp add: silent_def at_silent_def zero_state_def receive_def serial_interrupt_def
      uboot_detect_def serial_interrupt_tx_def Let_def)

lemma escape_no_command:
  "no_command c \<Longrightarrow>
   escape_process c s =
     Returned (if last_was_bang s then putchar_r 0x45 (s\<lparr>last_was_bang := False\<rparr>)
               else rx_enqueue c s)"
  by (auto simp: escape_process_def no_command_def)

lemma banner_no_command: "c = 0x86 \<or> c = 0x98 \<Longrightarrow> no_command c"
  by (auto simp: no_command_def)

lemma u8_succ_below: "(k :: u8) < 80 \<Longrightarrow> unat (k + 1) = unat k + 1"
proof -
  assume "k < 80"
  then have "unat k < 80" by (simp add: word_less_nat_alt)
  then have "unat k + unat (1 :: u8) < 2 ^ LENGTH(8)" by simp
  then show ?thesis by (simp add: unat_add_lem [THEN iffD1])
qed

lemma uboot_detect_match:
  assumes "(last_byte s = 0x86 \<and> c = 0x98) \<or> (last_byte s = 0x98 \<and> c = 0x86)"
  shows "last_byte (uboot_detect c s) = c"
    and "uboot_silence_mode s \<Longrightarrow> uboot_silence_mode (uboot_detect c s)"
    and "uboot_counter s < 80 \<Longrightarrow> unat (uboot_counter s) = 79 \<Longrightarrow> uboot_silence_mode (uboot_detect c s)"
    and "uboot_counter s < 80 \<Longrightarrow> unat (uboot_counter s) \<noteq> 79
         \<Longrightarrow> uboot_counter (uboot_detect c s) < 80
             \<and> unat (uboot_counter (uboot_detect c s)) = unat (uboot_counter s) + 1"
proof -
  show "last_byte (uboot_detect c s) = c" by (simp add: uboot_detect_def Let_def)
  show "uboot_silence_mode (uboot_detect c s)" if "uboot_silence_mode s"
    using that by (simp add: uboot_detect_def Let_def)
  show "uboot_silence_mode (uboot_detect c s)"
    if "uboot_counter s < 80" "unat (uboot_counter s) = 79"
  proof -
    have "unat (uboot_counter s + 1) = 80" using u8_succ_below [OF that(1)] that(2) by simp
    then have "80 \<le> uboot_counter s + 1" by (simp add: word_le_nat_alt)
    then show ?thesis using assms by (simp add: uboot_detect_def Let_def)
  qed
  show "uboot_counter (uboot_detect c s) < 80
        \<and> unat (uboot_counter (uboot_detect c s)) = unat (uboot_counter s) + 1"
    if "uboot_counter s < 80" "unat (uboot_counter s) \<noteq> 79"
  proof -
    have k: "unat (uboot_counter s) < 80" using that(1) by (simp add: word_less_nat_alt)
    have n: "unat (uboot_counter s + 1) = unat (uboot_counter s) + 1"
      using that(1) by (rule u8_succ_below)
    then have lt: "unat (uboot_counter s + 1) < 80" using k that(2) by simp
    then have "\<not> 80 \<le> uboot_counter s + 1" by (simp add: word_le_nat_alt)
    moreover have "uboot_counter s + 1 < 80" using lt by (simp add: word_less_nat_alt)
    ultimately show ?thesis using assms n by (simp add: uboot_detect_def Let_def)
  qed
qed


lemma receive_banner_step:
  assumes mode: "\<not> at_mode_active s"
    and m: "(last_byte s = 0x86 \<and> c = 0x98) \<or> (last_byte s = 0x98 \<and> c = 0x86)"
  shows "\<exists>s'. receive c s = Returned s' \<and> \<not> at_mode_active s' \<and> last_byte s' = c
           \<and> (uboot_silence_mode s \<longrightarrow> uboot_silence_mode s')
           \<and> (uboot_counter s < 80 \<and> unat (uboot_counter s) = 79 \<longrightarrow> uboot_silence_mode s')
           \<and> (uboot_counter s < 80 \<and> unat (uboot_counter s) \<noteq> 79
                \<longrightarrow> uboot_counter s' < 80 \<and> unat (uboot_counter s') = unat (uboot_counter s) + 1)"
proof -
  let ?s0 = "s\<lparr>sbuf0 := c, ri0 := False\<rparr>"
  let ?P = "(uboot_detect c ?s0)\<lparr>ext_calls := ext_calls s @ [At_plus_detector c]\<rparr>"
  let ?e = "if last_was_bang ?P then putchar_r 0x45 (?P\<lparr>last_was_bang := False\<rparr>)
            else rx_enqueue c ?P"
  let ?s' = "serial_interrupt_tx (cts_assert ?e)"
  have c: "no_command c" using m by (intro banner_no_command) auto
  have r: "receive c s = Returned ?s'"
    using mode escape_no_command [OF c] by (rule receive_via)
  have m0: "(last_byte ?s0 = 0x86 \<and> c = 0x98) \<or> (last_byte ?s0 = 0x98 \<and> c = 0x86)"
    using m by simp
  note d = uboot_detect_match [OF m0]
  have f: "at_mode_active ?s' = at_mode_active s" "last_byte ?s' = last_byte (uboot_detect c ?s0)"
    "uboot_silence_mode ?s' = uboot_silence_mode (uboot_detect c ?s0)"
    "uboot_counter ?s' = uboot_counter (uboot_detect c ?s0)"
    by simp_all
  have s0: "uboot_silence_mode ?s0 = uboot_silence_mode s" "uboot_counter ?s0 = uboot_counter s"
    by simp_all
  show ?thesis
    apply (rule exI [of _ ?s'])
    apply (simp only: r f)
    using mode d apply (simp only: s0)
    apply simp
    done
qed

text \<open>
  A run of banner bytes turns silence mode on once the count of matches reaches 80,
  and nothing in the run turns it off again.
\<close>

lemma banner_run_silence:
  assumes "\<not> at_mode_active s" "banner_run (last_byte s) bs"
    and "uboot_silence_mode s \<or> (uboot_counter s < 80 \<and> 80 \<le> unat (uboot_counter s) + length bs)"
  shows "\<exists>s'. receive_all bs s = Returned s' \<and> uboot_silence_mode s'"
  using assms
proof (induction bs arbitrary: s)
  case Nil
  then have "uboot_silence_mode s" by (auto simp: word_less_nat_alt)
  then show ?case by simp
next
  case (Cons c cs)
  from Cons.prems(2)
  have m: "(last_byte s = 0x86 \<and> c = 0x98) \<or> (last_byte s = 0x98 \<and> c = 0x86)"
    and rest: "banner_run c cs" by simp_all
  from receive_banner_step [OF Cons.prems(1) m] obtain s1 where
    r: "receive c s = Returned s1" and mode1: "\<not> at_mode_active s1" and lb: "last_byte s1 = c"
    and keep: "uboot_silence_mode s \<Longrightarrow> uboot_silence_mode s1"
    and trip: "uboot_counter s < 80 \<Longrightarrow> unat (uboot_counter s) = 79 \<Longrightarrow> uboot_silence_mode s1"
    and count: "uboot_counter s < 80 \<Longrightarrow> unat (uboot_counter s) \<noteq> 79
                \<Longrightarrow> uboot_counter s1 < 80 \<and> unat (uboot_counter s1) = unat (uboot_counter s) + 1"
    by auto
  have inv: "uboot_silence_mode s1 \<or> (uboot_counter s1 < 80 \<and> 80 \<le> unat (uboot_counter s1) + length cs)"
  proof (cases "uboot_silence_mode s")
    case True
    then show ?thesis using keep by simp
  next
    case False
    then have k: "uboot_counter s < 80" and n: "80 \<le> unat (uboot_counter s) + length (c # cs)"
      using Cons.prems(3) by simp_all
    show ?thesis
    proof (cases "unat (uboot_counter s) = 79")
      case True
      then show ?thesis using trip [OF k] by simp
    next
      case False
      then show ?thesis using count [OF k] n by simp
    qed
  qed
  have "banner_run (last_byte s1) cs" using rest lb by simp
  from Cons.IH [OF mode1 this inv] obtain s' where
    "receive_all cs s1 = Returned s'" "uboot_silence_mode s'" by auto
  then show ?case using r by (intro exI [of _ s']) simp
qed


lemma uboot_counter_bound: "uboot_counter (uboot_detect c s) < 80"
  by (simp add: uboot_detect_def Let_def not_le)

lemma serial_write_silent: "uboot_silence_mode s \<Longrightarrow> serial_write c s = (False, s)"
  by (simp add: serial_write_def)

lemma bang_clears_silence:
  "\<not> at_mode_active s \<Longrightarrow> \<exists>s'. receive 0x21 s = Returned s' \<and> \<not> uboot_silence_mode s'"
proof -
  assume "\<not> at_mode_active s"
  from receive_bang [OF this] obtain s' where
    "receive 0x21 s = Returned s'" "\<not> uboot_silence_mode s'" by auto
  then show ?thesis by auto
qed

text \<open>
  How many bytes the detector needs.  It counts a byte only against the one received
  before it, so the first byte of a banner that follows anything else is not counted.
\<close>

lemma receive_plain_step:
  assumes mode: "\<not> at_mode_active s" and c: "no_command c"
  shows "\<exists>s'. receive c s = Returned s' \<and> \<not> at_mode_active s' \<and> last_byte s' = c
           \<and> uboot_silence_mode s' = uboot_silence_mode (uboot_detect c s)
           \<and> uboot_counter s' = uboot_counter (uboot_detect c s)"
proof -
  let ?s0 = "s\<lparr>sbuf0 := c, ri0 := False\<rparr>"
  let ?P = "(uboot_detect c ?s0)\<lparr>ext_calls := ext_calls s @ [At_plus_detector c]\<rparr>"
  let ?e = "if last_was_bang ?P then putchar_r 0x45 (?P\<lparr>last_was_bang := False\<rparr>)
            else rx_enqueue c ?P"
  let ?s' = "serial_interrupt_tx (cts_assert ?e)"
  have r: "receive c s = Returned ?s'"
    using mode escape_no_command [OF c] by (rule receive_via)
  have d: "uboot_silence_mode (uboot_detect c ?s0) = uboot_silence_mode (uboot_detect c s)"
    "uboot_counter (uboot_detect c ?s0) = uboot_counter (uboot_detect c s)"
    "last_byte (uboot_detect c ?s0) = c"
    by (simp_all add: uboot_detect_def Let_def)
  have f: "at_mode_active ?s' = at_mode_active s" "last_byte ?s' = last_byte (uboot_detect c ?s0)"
    "uboot_silence_mode ?s' = uboot_silence_mode (uboot_detect c ?s0)"
    "uboot_counter ?s' = uboot_counter (uboot_detect c ?s0)"
    by simp_all
  show ?thesis
    apply (rule exI [of _ ?s'])
    apply (simp only: r f d)
    using mode apply simp
    done
qed

lemma uboot_detect_below:
  assumes "(last_byte s = 0x86 \<and> c = 0x98) \<or> (last_byte s = 0x98 \<and> c = 0x86)"
    and "\<not> uboot_silence_mode s" and "unat (uboot_counter s) + 1 < 80"
  shows "\<not> uboot_silence_mode (uboot_detect c s)"
    and "unat (uboot_counter (uboot_detect c s)) = unat (uboot_counter s) + 1"
proof -
  have k: "uboot_counter s < 80" using assms(3) by (simp add: word_less_nat_alt)
  have n: "unat (uboot_counter s + 1) = unat (uboot_counter s) + 1" using k by (rule u8_succ_below)
  then have "\<not> 80 \<le> uboot_counter s + 1" using assms(3) by (simp add: word_le_nat_alt)
  then show "\<not> uboot_silence_mode (uboot_detect c s)"
    and "unat (uboot_counter (uboot_detect c s)) = unat (uboot_counter s) + 1"
    using assms(1,2) n by (simp_all add: uboot_detect_def Let_def)
qed

text \<open>A run of banner bytes too short to bring the count to 80 leaves silence mode off.\<close>

lemma banner_run_short:
  assumes "\<not> at_mode_active s" "banner_run (last_byte s) bs"
    and "\<not> uboot_silence_mode s" and "unat (uboot_counter s) + length bs < 80"
  shows "\<exists>s'. receive_all bs s = Returned s' \<and> \<not> uboot_silence_mode s'
           \<and> unat (uboot_counter s') = unat (uboot_counter s) + length bs"
  using assms
proof (induction bs arbitrary: s)
  case Nil
  then show ?case by simp
next
  case (Cons c cs)
  from Cons.prems(2)
  have m: "(last_byte s = 0x86 \<and> c = 0x98) \<or> (last_byte s = 0x98 \<and> c = 0x86)"
    and rest: "banner_run c cs" by simp_all
  have c: "no_command c" using m by (intro banner_no_command) auto
  have one: "unat (uboot_counter s) + 1 < 80" using Cons.prems(4) by simp
  note d = uboot_detect_below [OF m Cons.prems(3) one]
  from receive_plain_step [OF Cons.prems(1) c] obtain s1 where
    r: "receive c s = Returned s1" and mode1: "\<not> at_mode_active s1" and lb: "last_byte s1 = c"
    and q: "\<not> uboot_silence_mode s1" and k: "unat (uboot_counter s1) = unat (uboot_counter s) + 1"
    using d by auto
  have run: "banner_run (last_byte s1) cs" using rest lb by simp
  have len: "unat (uboot_counter s1) + length cs < 80" using Cons.prems(4) k by simp
  from Cons.IH [OF mode1 run q len] obtain s' where
    "receive_all cs s1 = Returned s'" "\<not> uboot_silence_mode s'"
    "unat (uboot_counter s') = unat (uboot_counter s1) + length cs" by auto
  then show ?case using r k by (intro exI [of _ s']) simp
qed

lemma banner_run_append:
  "banner_run p (xs @ ys) = (banner_run p xs \<and> banner_run (last (p # xs)) ys)"
  by (induction xs arbitrary: p) auto

lemma banner_replicate_86:
  "banner_run 0x86 (concat (replicate n [0x98, 0x86]))"
  "length (concat (replicate n [0x98, 0x86 :: u8])) = 2 * n"
  by (induction n) simp_all

text \<open>
  Eighty banner bytes \<open>86 98 86 98 ...\<close> arriving after an unrelated byte: the first
  one is not counted, the count stands at 79, and silence mode is still off.
\<close>

lemma eighty_bytes_from_idle:
  "length (0x86 # concat (replicate 39 [0x98, 0x86]) @ [0x98 :: u8]) = 80
   \<and> (\<exists>s'. receive_all (0x86 # concat (replicate 39 [0x98, 0x86]) @ [0x98]) zero_state = Returned s'
          \<and> \<not> uboot_silence_mode s' \<and> unat (uboot_counter s') = 79)"
proof -
  have z: "\<not> at_mode_active zero_state" by (simp add: zero_state_def)
  have c: "no_command 0x86" by (intro banner_no_command) simp
  from receive_plain_step [OF z c] obtain s1 where
    r: "receive 0x86 zero_state = Returned s1" and mode1: "\<not> at_mode_active s1"
    and lb: "last_byte s1 = 0x86"
    and q: "\<not> uboot_silence_mode s1" and k: "uboot_counter s1 = 0"
    by (auto simp: uboot_detect_def zero_state_def Let_def)
  let ?bs = "concat (replicate 39 [0x98, 0x86]) @ [0x98 :: u8]"
  have l: "last (0x86 # concat (replicate 39 [0x98, 0x86 :: u8])) = 0x86"
    by (simp add: eval_nat_numeral)
  have run: "banner_run (last_byte s1) ?bs"
    unfolding lb banner_run_append l using banner_replicate_86(1) [of 39] by simp
  have len: "length ?bs = 79" by (simp add: banner_replicate_86)
  then have lt: "unat (uboot_counter s1) + length ?bs < 80" using k by simp
  from banner_run_short [OF mode1 run q lt] obtain s' where
    "receive_all ?bs s1 = Returned s'" "\<not> uboot_silence_mode s'"
    "unat (uboot_counter s') = unat (uboot_counter s1) + length ?bs" by auto
  then show ?thesis using r k len by (auto simp: banner_replicate_86)
qed

end
